theory Spec2Isabelle
  imports Main "HOL-Library.Word"
begin

unbundle bit_operations_syntax

section \<open>The Intel HEX reader of \<open>components/ihex\<close>\<close>

text \<open>
  The embedding follows \<open>ihex.h\<close> and \<open>ihex.c\<close>, function by function. The fixed-width
  C integers are words of the same width; a C expression whose operands are promoted to
  \<open>int\<close> is computed at 32 bits and cut down to the width of the variable that receives
  it. A left shift is \<open>push_bit\<close>: where C leaves a shift by the operand's width or more
  undefined (a digit position above 3 in \<open>ihex_InsertDigit\<close>, a third payload byte of a
  type-02 record, a fifth of a type-04 record), the model yields the mathematical shift
  cut to the word.

  The data callback is a function pointer that may be \<open>NULL\<close>: an \<open>option\<close>. What the
  callback does with a byte is outside the reader, so the model keeps the sequence of its
  invocations (address and data of each call, oldest first) in the field \<open>calls\<close>, which
  influences neither a status nor the lexer. The circular buffer of \<open>components/m_cfifo\<close> only
  supplies bytes and is not modelled.
\<close>

subsection \<open>Types of \<open>ihex.h\<close>\<close>

datatype ihex_tLexerState =
    IHEX_LEXER_STATE_WAIT_COLON
  | IHEX_LEXER_STATE_WAIT_BYTE_COUNT
  | IHEX_LEXER_STATE_WAIT_ADDRESS
  | IHEX_LEXER_STATE_WAIT_TYPE
  | IHEX_LEXER_STATE_WAIT_DATA
  | IHEX_LEXER_STATE_WAIT_CHECK_SUM

datatype ihex_tLexerTokenType =
    IHEX_LEXER_TOKENTYPE_RECORD_MARK
  | IHEX_LEXER_TOKENTYPE_RECLEN
  | IHEX_LEXER_TOKENTYPE_LOAD_OFFSET
  | IHEX_LEXER_TOKENTYPE_RECTYP
  | IHEX_LEXER_TOKENTYPE_DATA
  | IHEX_LEXER_TOKENTYPE_CHKSUM

datatype ihex_tMessage =
    IHEX_MESSAGE_CONTINUE
  | IHEX_MESSAGE_END
  | IHEX_MESSAGE_INVALID_INPUT_DATA
  | IHEX_MESSAGE_CHECK_SUM_ERROR
  | IHEX_MESSAGE_VERIFICATION_ERROR

definition IHEX_TYPE_00_DATA_RECORD :: "8 word" where
  "IHEX_TYPE_00_DATA_RECORD = 0"

definition IHEX_TYPE_01_END_OF_FILE_RECORD :: "8 word" where
  "IHEX_TYPE_01_END_OF_FILE_RECORD = 1"

definition IHEX_TYPE_02_EXTENDED_SEGMENT_ADDRESS_RECORD :: "8 word" where
  "IHEX_TYPE_02_EXTENDED_SEGMENT_ADDRESS_RECORD = 2"

definition IHEX_TYPE_03_START_SEGMENT_ADDRESS_RECORD :: "8 word" where
  "IHEX_TYPE_03_START_SEGMENT_ADDRESS_RECORD = 3"

definition IHEX_TYPE_04_EXTENDED_LINEAR_ADDRESS_RECORD :: "8 word" where
  "IHEX_TYPE_04_EXTENDED_LINEAR_ADDRESS_RECORD = 4"

definition IHEX_TYPE_05_START_LINEAR_ADDRESS_RECORD :: "8 word" where
  "IHEX_TYPE_05_START_LINEAR_ADDRESS_RECORD = 5"

record ihex_tRecordData =
  record_mark :: "8 word"
  reclen :: "8 word"
  load_offset :: "16 word"
  rectyp :: "8 word"
  data :: "8 word"
  target_check_sum :: "8 word"

record ihex_tLexer =
  state :: ihex_tLexerState
  num_expected_characters :: "16 word"
  ext_offset_byte_pos :: "8 word"
  ext_offset :: "32 word"
  rec_byte_offset :: "16 word"
  calc_chksum :: "8 word"
  record_data :: ihex_tRecordData

type_synonym ihex_tDataCallback = "32 word \<Rightarrow> 8 word \<Rightarrow> ihex_tMessage"

record ihex_tReader =
  lexer :: ihex_tLexer
  funcData :: "ihex_tDataCallback option"
  calls :: "(32 word \<times> 8 word) list"

subsection \<open>Local defines of \<open>ihex.c\<close>\<close>

definition NUM_BYTE_COUNT_DIGITS :: "16 word" where
  "NUM_BYTE_COUNT_DIGITS = 2"

definition NUM_ADDRESS_DIGITS :: "16 word" where
  "NUM_ADDRESS_DIGITS = 4"

definition NUM_TYPE_DIGITS :: "16 word" where
  "NUM_TYPE_DIGITS = 2"

definition NUM_CHECK_SUM_DIGITS :: "16 word" where
  "NUM_CHECK_SUM_DIGITS = 2"

subsection \<open>Global functions\<close>

definition ihex_Init :: "ihex_tReader \<Rightarrow> ihex_tDataCallback option \<Rightarrow> ihex_tReader" where
  "ihex_Init reader func_data = reader\<lparr>funcData := func_data\<rparr>"

definition ihex_Begin :: "ihex_tReader \<Rightarrow> ihex_tReader" where
  "ihex_Begin reader =
     reader\<lparr>lexer := (lexer reader)\<lparr>state := IHEX_LEXER_STATE_WAIT_COLON, ext_offset := 0\<rparr>\<rparr>"

subsection \<open>Local functions\<close>

text \<open>The characters are bytes: \<open>':'\<close> is 0x3A, \<open>'0'..'9'\<close> are 0x30..0x39, \<open>'A'..'F'\<close>
  are 0x41..0x46, \<open>'a'..'f'\<close> are 0x61..0x66, line feed is 0x0A and carriage return 0x0D.\<close>

definition ihex_IsValidData :: "8 word \<Rightarrow> bool" where
  "ihex_IsValidData d \<longleftrightarrow>
     d = 0x3A \<or> (0x30 \<le> d \<and> d \<le> 0x39) \<or> (0x41 \<le> d \<and> d \<le> 0x46) \<or> (0x61 \<le> d \<and> d \<le> 0x66)"

text \<open>The result is an \<open>int8_t\<close>: a byte read with \<open>sint\<close>, and \<open>-1\<close> is 0xFF.\<close>

definition ihex_CharToValue :: "8 word \<Rightarrow> 8 word" where
  "ihex_CharToValue d =
     (if 0x30 \<le> d \<and> d \<le> 0x39 then d - 0x30
      else if 0x41 \<le> d \<and> d \<le> 0x46 then d - 0x41 + 10
      else if 0x61 \<le> d \<and> d \<le> 0x66 then d - 0x61 + 10
      else - 1)"

definition ihex_SetNextState ::
  "ihex_tReader \<Rightarrow> ihex_tLexerState \<Rightarrow> 16 word \<Rightarrow> ihex_tReader" where
  "ihex_SetNextState reader next_state num_expected_digits =
     reader\<lparr>lexer := (lexer reader)\<lparr>state := next_state,
                                     num_expected_characters := num_expected_digits\<rparr>\<rparr>"

definition ihex_InsertDigit :: "16 word \<Rightarrow> 8 word \<Rightarrow> 8 word \<Rightarrow> 16 word" where
  "ihex_InsertDigit src_val nibble_data digit_pos =
     (let new_data = push_bit (unat digit_pos * 4) (ucast (nibble_data AND 0x0F) :: 16 word);
          mask = push_bit (unat digit_pos * 4) (0x000F :: 16 word);
          dst_val = src_val AND NOT mask
      in dst_val OR (new_data AND mask))"

text \<open>\<open>calc_chksum += token_data\<close> on a \<open>uint8_t\<close>: the sum is an \<open>int\<close>, stored cut to 8 bits.\<close>

definition add_chksum :: "8 word \<Rightarrow> 32 word \<Rightarrow> 8 word" where
  "add_chksum c v = ucast ((ucast c :: 32 word) + v)"

definition ihex_LexerTokenStream ::
  "ihex_tReader \<Rightarrow> ihex_tLexerTokenType \<Rightarrow> 16 word \<Rightarrow> ihex_tMessage \<times> ihex_tReader" where
  "ihex_LexerTokenStream reader token_type token_data =
     (let lx = lexer reader; rd = record_data lx in
      case token_type of
        IHEX_LEXER_TOKENTYPE_RECORD_MARK \<Rightarrow>
          (IHEX_MESSAGE_CONTINUE,
           reader\<lparr>lexer := lx\<lparr>calc_chksum := 0, rec_byte_offset := 0x0000\<rparr>\<rparr>)
      | IHEX_LEXER_TOKENTYPE_RECLEN \<Rightarrow>
          (IHEX_MESSAGE_CONTINUE,
           reader\<lparr>lexer := lx\<lparr>calc_chksum := add_chksum (calc_chksum lx) (ucast token_data)\<rparr>\<rparr>)
      | IHEX_LEXER_TOKENTYPE_LOAD_OFFSET \<Rightarrow>
          (IHEX_MESSAGE_CONTINUE,
           reader\<lparr>lexer := lx\<lparr>calc_chksum :=
              add_chksum (calc_chksum lx)
                (ucast (drop_bit 8 token_data) + ucast (token_data AND 0xFF))\<rparr>\<rparr>)
      | IHEX_LEXER_TOKENTYPE_RECTYP \<Rightarrow>
          (let lx1 = lx\<lparr>calc_chksum := add_chksum (calc_chksum lx) (ucast token_data)\<rparr>;
               lx2 = (if rectyp rd = IHEX_TYPE_02_EXTENDED_SEGMENT_ADDRESS_RECORD
                      then lx1\<lparr>ext_offset := 0x00000000, ext_offset_byte_pos := 1\<rparr>
                      else if rectyp rd = IHEX_TYPE_04_EXTENDED_LINEAR_ADDRESS_RECORD
                      then lx1\<lparr>ext_offset := 0x00000000, ext_offset_byte_pos := 3\<rparr>
                      else lx1)
           in (IHEX_MESSAGE_CONTINUE, reader\<lparr>lexer := lx2\<rparr>))
      | IHEX_LEXER_TOKENTYPE_DATA \<Rightarrow>
          (let lx1 = lx\<lparr>calc_chksum := add_chksum (calc_chksum lx) (ucast token_data)\<rparr>;
               r1 = reader\<lparr>lexer := lx1\<rparr>;
               (message, r2) =
                 (if rectyp rd = IHEX_TYPE_00_DATA_RECORD
                  then (case funcData reader of
                          None \<Rightarrow> (IHEX_MESSAGE_CONTINUE, r1)
                        | Some f \<Rightarrow>
                            (let address = (ext_offset lx1 + ucast (load_offset rd))
                                             + ucast (rec_byte_offset lx1)
                             in (f address (ucast token_data),
                                 r1\<lparr>calls := calls r1 @ [(address, ucast token_data)]\<rparr>)))
                  else if rectyp rd = IHEX_TYPE_02_EXTENDED_SEGMENT_ADDRESS_RECORD
                  then (let e1 = ext_offset lx1
                                   OR push_bit (8 * unat (ext_offset_byte_pos lx1))
                                        (ucast token_data :: 32 word);
                            e2 = (if ext_offset_byte_pos lx1 = 0 then push_bit 4 e1 else e1)
                        in (IHEX_MESSAGE_CONTINUE,
                            r1\<lparr>lexer := lx1\<lparr>ext_offset := e2,
                                  ext_offset_byte_pos := ext_offset_byte_pos lx1 - 1\<rparr>\<rparr>))
                  else if rectyp rd = IHEX_TYPE_04_EXTENDED_LINEAR_ADDRESS_RECORD
                  then (IHEX_MESSAGE_CONTINUE,
                        r1\<lparr>lexer := lx1\<lparr>ext_offset :=
                              ext_offset lx1
                                OR push_bit (8 * unat (ext_offset_byte_pos lx1))
                                     (ucast token_data :: 32 word),
                              ext_offset_byte_pos := ext_offset_byte_pos lx1 - 1\<rparr>\<rparr>)
                  else (IHEX_MESSAGE_CONTINUE, r1))
           in (message,
               r2\<lparr>lexer := (lexer r2)\<lparr>rec_byte_offset := rec_byte_offset (lexer r2) + 1\<rparr>\<rparr>))
      | IHEX_LEXER_TOKENTYPE_CHKSUM \<Rightarrow>
          (let c = (ucast (NOT (ucast (calc_chksum lx) :: 32 word) + 1) :: 8 word);
               r1 = reader\<lparr>lexer := lx\<lparr>calc_chksum := c\<rparr>\<rparr>
           in if rectyp rd = IHEX_TYPE_01_END_OF_FILE_RECORD then (IHEX_MESSAGE_END, r1)
              else if c \<noteq> target_check_sum rd then (IHEX_MESSAGE_CHECK_SUM_ERROR, r1)
              else (IHEX_MESSAGE_CONTINUE, r1)))"


text \<open>Each digit state first decrements the counter of expected characters, then converts
  the character; on a character that is no digit it leaves with the counter decremented.\<close>

definition ihex_Lexer :: "ihex_tReader \<Rightarrow> 8 word \<Rightarrow> ihex_tMessage \<times> ihex_tReader" where
  "ihex_Lexer reader d =
     (case state (lexer reader) of
        IHEX_LEXER_STATE_WAIT_COLON \<Rightarrow>
          (if d \<noteq> 0x3A then (IHEX_MESSAGE_CONTINUE, reader)
           else
             (let r1 = reader\<lparr>lexer := (lexer reader)\<lparr>record_data :=
                         \<lparr>record_mark = 0, reclen = 0, load_offset = 0, rectyp = 0,
                          data = 0, target_check_sum = 0\<rparr>\<rparr>\<rparr>;
                  r2 = r1\<lparr>lexer := (lexer r1)\<lparr>record_data :=
                         (record_data (lexer r1))\<lparr>record_mark := d\<rparr>\<rparr>\<rparr>;
                  (message, r3) =
                    ihex_LexerTokenStream r2 IHEX_LEXER_TOKENTYPE_RECORD_MARK
                      (ucast (record_mark (record_data (lexer r2))))
              in (message,
                  ihex_SetNextState r3 IHEX_LEXER_STATE_WAIT_BYTE_COUNT NUM_BYTE_COUNT_DIGITS)))
      | IHEX_LEXER_STATE_WAIT_BYTE_COUNT \<Rightarrow>
          (let r1 = reader\<lparr>lexer := (lexer reader)\<lparr>num_expected_characters :=
                      num_expected_characters (lexer reader) - 1\<rparr>\<rparr>;
               temp_digit = ihex_CharToValue d
           in if sint temp_digit < 0 then (IHEX_MESSAGE_INVALID_INPUT_DATA, r1)
              else
                (let rd = record_data (lexer r1);
                     r2 = r1\<lparr>lexer := (lexer r1)\<lparr>record_data := rd\<lparr>reclen :=
                            ucast (ihex_InsertDigit (ucast (reclen rd)) temp_digit
                                     (ucast (num_expected_characters (lexer r1))))\<rparr>\<rparr>\<rparr>
                 in if num_expected_characters (lexer r2) = 0
                    then (let (message, r3) =
                                ihex_LexerTokenStream r2 IHEX_LEXER_TOKENTYPE_RECLEN
                                  (ucast (reclen (record_data (lexer r2))))
                          in (message,
                              ihex_SetNextState r3 IHEX_LEXER_STATE_WAIT_ADDRESS
                                NUM_ADDRESS_DIGITS))
                    else (IHEX_MESSAGE_CONTINUE, r2)))
      | IHEX_LEXER_STATE_WAIT_ADDRESS \<Rightarrow>
          (let r1 = reader\<lparr>lexer := (lexer reader)\<lparr>num_expected_characters :=
                      num_expected_characters (lexer reader) - 1\<rparr>\<rparr>;
               temp_digit = ihex_CharToValue d
           in if sint temp_digit < 0 then (IHEX_MESSAGE_INVALID_INPUT_DATA, r1)
              else
                (let rd = record_data (lexer r1);
                     r2 = r1\<lparr>lexer := (lexer r1)\<lparr>record_data := rd\<lparr>load_offset :=
                            ihex_InsertDigit (load_offset rd) temp_digit
                              (ucast (num_expected_characters (lexer r1)))\<rparr>\<rparr>\<rparr>
                 in if num_expected_characters (lexer r2) = 0
                    then (let (message, r3) =
                                ihex_LexerTokenStream r2 IHEX_LEXER_TOKENTYPE_LOAD_OFFSET
                                  (load_offset (record_data (lexer r2)))
                          in (message,
                              ihex_SetNextState r3 IHEX_LEXER_STATE_WAIT_TYPE NUM_TYPE_DIGITS))
                    else (IHEX_MESSAGE_CONTINUE, r2)))
      | IHEX_LEXER_STATE_WAIT_TYPE \<Rightarrow>
          (let r1 = reader\<lparr>lexer := (lexer reader)\<lparr>num_expected_characters :=
                      num_expected_characters (lexer reader) - 1\<rparr>\<rparr>;
               temp_digit = ihex_CharToValue d
           in if sint temp_digit < 0 then (IHEX_MESSAGE_INVALID_INPUT_DATA, r1)
              else
                (let rd = record_data (lexer r1);
                     r2 = r1\<lparr>lexer := (lexer r1)\<lparr>record_data := rd\<lparr>rectyp :=
                            ucast (ihex_InsertDigit (ucast (rectyp rd)) temp_digit
                                     (ucast (num_expected_characters (lexer r1))))\<rparr>\<rparr>\<rparr>
                 in if num_expected_characters (lexer r2) = 0
                    then (let (message, r3) =
                                ihex_LexerTokenStream r2 IHEX_LEXER_TOKENTYPE_RECTYP
                                  (ucast (rectyp (record_data (lexer r2))));
                              r4 = r3\<lparr>lexer := (lexer r3)\<lparr>record_data :=
                                     (record_data (lexer r3))\<lparr>data := 0x00\<rparr>\<rparr>\<rparr>
                          in (message,
                              if reclen (record_data (lexer r4)) > 0
                              then ihex_SetNextState r4 IHEX_LEXER_STATE_WAIT_DATA
                                     (ucast (reclen (record_data (lexer r4))) * 2)
                              else ihex_SetNextState r4 IHEX_LEXER_STATE_WAIT_CHECK_SUM
                                     NUM_CHECK_SUM_DIGITS))
                    else (IHEX_MESSAGE_CONTINUE, r2)))
      | IHEX_LEXER_STATE_WAIT_DATA \<Rightarrow>
          (let r1 = reader\<lparr>lexer := (lexer reader)\<lparr>num_expected_characters :=
                      num_expected_characters (lexer reader) - 1\<rparr>\<rparr>;
               temp_digit = ihex_CharToValue d
           in if sint temp_digit < 0 then (IHEX_MESSAGE_INVALID_INPUT_DATA, r1)
              else
                (let digit_pos = (ucast (num_expected_characters (lexer r1) mod 2) :: 8 word);
                     rd = record_data (lexer r1);
                     r2 = r1\<lparr>lexer := (lexer r1)\<lparr>record_data := rd\<lparr>data :=
                            ucast (ihex_InsertDigit (ucast (data rd)) temp_digit digit_pos)\<rparr>\<rparr>\<rparr>;
                     (message, r4) =
                       (if digit_pos = 0
                        then (let (m, r3) =
                                    ihex_LexerTokenStream r2 IHEX_LEXER_TOKENTYPE_DATA
                                      (ucast (data (record_data (lexer r2))))
                              in (m, r3\<lparr>lexer := (lexer r3)\<lparr>record_data :=
                                          (record_data (lexer r3))\<lparr>data := 0x00\<rparr>\<rparr>\<rparr>))
                        else (IHEX_MESSAGE_CONTINUE, r2))
                 in (message,
                     if num_expected_characters (lexer r4) = 0
                     then ihex_SetNextState r4 IHEX_LEXER_STATE_WAIT_CHECK_SUM
                            NUM_CHECK_SUM_DIGITS
                     else r4)))
      | IHEX_LEXER_STATE_WAIT_CHECK_SUM \<Rightarrow>
          (let r1 = reader\<lparr>lexer := (lexer reader)\<lparr>num_expected_characters :=
                      num_expected_characters (lexer reader) - 1\<rparr>\<rparr>;
               temp_digit = ihex_CharToValue d
           in if sint temp_digit < 0 then (IHEX_MESSAGE_INVALID_INPUT_DATA, r1)
              else
                (let rd = record_data (lexer r1);
                     r2 = r1\<lparr>lexer := (lexer r1)\<lparr>record_data := rd\<lparr>target_check_sum :=
                            ucast (ihex_InsertDigit (ucast (target_check_sum rd)) temp_digit
                                     (ucast (num_expected_characters (lexer r1))))\<rparr>\<rparr>\<rparr>
                 in if num_expected_characters (lexer r2) = 0
                    then (let (message, r3) =
                                ihex_LexerTokenStream r2 IHEX_LEXER_TOKENTYPE_CHKSUM
                                  (ucast (target_check_sum (record_data (lexer r2))))
                          in (message,
                              r3\<lparr>lexer := (lexer r3)\<lparr>state := IHEX_LEXER_STATE_WAIT_COLON\<rparr>\<rparr>))
                    else (IHEX_MESSAGE_CONTINUE, r2))))"

text \<open>\<open>ihex_Put\<close>: line feed and carriage return are skipped first, then every byte that
  is neither \<open>':'\<close> nor a hex digit is refused before the lexer sees it.\<close>

definition ihex_Put :: "ihex_tReader \<Rightarrow> 8 word \<Rightarrow> ihex_tMessage \<times> ihex_tReader" where
  "ihex_Put reader d =
     (if d = 0x0A then (IHEX_MESSAGE_CONTINUE, reader)
      else if d = 0x0D then (IHEX_MESSAGE_CONTINUE, reader)
      else if \<not> ihex_IsValidData d then (IHEX_MESSAGE_INVALID_INPUT_DATA, reader)
      else ihex_Lexer reader d)"

subsection \<open>Feeding a sequence of bytes\<close>

text \<open>The caller feeds a stream by calling \<open>ihex_Put\<close> once per byte on the same reader;
  \<open>feed\<close> returns the status of every call, in order, and the reader after the last.\<close>

fun feed :: "ihex_tReader \<Rightarrow> 8 word list \<Rightarrow> ihex_tMessage list \<times> ihex_tReader" where
  "feed reader [] = ([], reader)"
| "feed reader (d # ds) =
     (let (m, r1) = ihex_Put reader d; (ms, r2) = feed r1 ds in (m # ms, r2))"

definition bytes_of :: "string \<Rightarrow> 8 word list" where
  "bytes_of s = map of_char s"

subsection \<open>Readers to run the functions on\<close>

text \<open>A reader as the caller allocates it, with every field zero and no callback bound;
  a callback that accepts every byte; and a reader with that callback bound by \<open>ihex_Init\<close>
  and reset by \<open>ihex_Begin\<close>.\<close>

definition blank_reader :: ihex_tReader where
  "blank_reader =
     \<lparr>lexer = \<lparr>state = IHEX_LEXER_STATE_WAIT_COLON, num_expected_characters = 0,
               ext_offset_byte_pos = 0, ext_offset = 0, rec_byte_offset = 0, calc_chksum = 0,
               record_data = \<lparr>record_mark = 0, reclen = 0, load_offset = 0, rectyp = 0,
                               data = 0, target_check_sum = 0\<rparr>\<rparr>,
      funcData = None, calls = []\<rparr>"

definition always_continue :: ihex_tDataCallback where
  "always_continue address d = IHEX_MESSAGE_CONTINUE"

definition begun_reader :: ihex_tReader where
  "begun_reader = ihex_Begin (ihex_Init blank_reader (Some always_continue))"

section \<open>Record lines\<close>

text \<open>
  The wire format, stated without the reader: a hex digit is one of \<open>0..9\<close>, \<open>A..F\<close>,
  \<open>a..f\<close>; two digits, most significant first, give a byte; \<open>hex_text ds bs\<close> holds when
  the digit characters \<open>ds\<close> spell the bytes \<open>bs\<close>, in either case of the letters. A record
  line is \<open>':'\<close> followed by the digits of length, address (high byte, low byte), type,
  payload and checksum.
\<close>

definition is_hex_digit :: "8 word \<Rightarrow> bool" where
  "is_hex_digit d \<longleftrightarrow>
     (0x30 \<le> d \<and> d \<le> 0x39) \<or> (0x41 \<le> d \<and> d \<le> 0x46) \<or> (0x61 \<le> d \<and> d \<le> 0x66)"

definition digit_value :: "8 word \<Rightarrow> nat" where
  "digit_value d =
     (if d \<le> 0x39 then unat d - 48 else if d \<le> 0x46 then unat d - 55 else unat d - 87)"

definition hex_pair :: "8 word \<Rightarrow> 8 word \<Rightarrow> 8 word" where
  "hex_pair h l = of_nat (16 * digit_value h + digit_value l)"

fun hex_text :: "8 word list \<Rightarrow> 8 word list \<Rightarrow> bool" where
  "hex_text [] [] \<longleftrightarrow> True"
| "hex_text (h # l # ds) (b # bs) \<longleftrightarrow>
     is_hex_digit h \<and> is_hex_digit l \<and> b = hex_pair h l \<and> hex_text ds bs"
| "hex_text _ _ \<longleftrightarrow> False"

text \<open>
  The encoder of the round-trip property, following the wire format: every byte as two
  upper-case digits, the checksum the two's complement (negate bitwise, add 1, in 8 bits)
  of the sum of the bytes before it.
\<close>

definition hex_char :: "8 word \<Rightarrow> 8 word" where
  "hex_char v = (if v < 10 then 0x30 + v else 0x41 + (v - 10))"

definition hex_byte :: "8 word \<Rightarrow> 8 word list" where
  "hex_byte b = [hex_char (drop_bit 4 b), hex_char (b AND 0x0F)]"

definition record_checksum :: "8 word list \<Rightarrow> 8 word" where
  "record_checksum bs = NOT (sum_list bs) + 1"

definition encode_record ::
  "8 word \<Rightarrow> 8 word \<Rightarrow> 8 word \<Rightarrow> 8 word \<Rightarrow> 8 word list \<Rightarrow> 8 word list" where
  "encode_record len hi lo typ payload =
     0x3A # concat (map hex_byte ([len, hi, lo, typ] @ payload
                                   @ [record_checksum ([len, hi, lo, typ] @ payload)]))"

section \<open>The reader, one byte of a record at a time\<close>

text \<open>
  What two payload digits do to the reader, written as one step on the byte they spell:
  the status of the call on the second digit (\<open>data_message\<close>) and the reader after it
  (\<open>data_effect k\<close>, with \<open>k\<close> payload bytes still to come). \<open>payload_run\<close> repeats the
  step over a payload, \<open>header_state\<close> is the reader once \<open>':'\<close>, length, address and type
  have been read, \<open>record_end\<close> the reader after the two checksum digits, and
  \<open>final_message\<close> the status of the call on the last of them. The lemmas below prove
  that \<open>feed\<close> computes exactly these.
\<close>

definition data_address :: "ihex_tReader \<Rightarrow> 32 word" where
  "data_address r =
     ext_offset (lexer r) + ucast (load_offset (record_data (lexer r)))
       + ucast (rec_byte_offset (lexer r))"

definition data_message :: "ihex_tReader \<Rightarrow> 8 word \<Rightarrow> ihex_tMessage" where
  "data_message r b =
     (if rectyp (record_data (lexer r)) = 0
      then (case funcData r of None \<Rightarrow> IHEX_MESSAGE_CONTINUE
            | Some f \<Rightarrow> f (data_address r) b)
      else IHEX_MESSAGE_CONTINUE)"

definition ext_next :: "8 word \<Rightarrow> 32 word \<Rightarrow> 8 word \<Rightarrow> 8 word \<Rightarrow> 32 word" where
  "ext_next typ e p b =
     (if typ = 2
      then (if p = 0 then push_bit 4 (e OR push_bit (8 * unat p) (ucast b))
            else e OR push_bit (8 * unat p) (ucast b))
      else if typ = 4 then e OR push_bit (8 * unat p) (ucast b)
      else e)"

definition token_effect :: "ihex_tReader \<Rightarrow> 8 word \<Rightarrow> ihex_tReader" where
  "token_effect r b =
     (let lx = lexer r; typ = rectyp (record_data lx) in
      r\<lparr>lexer := lx\<lparr>
           ext_offset_byte_pos :=
             (if typ = 2 \<or> typ = 4 then ext_offset_byte_pos lx - 1
              else ext_offset_byte_pos lx),
           ext_offset := ext_next typ (ext_offset lx) (ext_offset_byte_pos lx) b,
           rec_byte_offset := rec_byte_offset lx + 1,
           calc_chksum := calc_chksum lx + b\<rparr>,
        calls := calls r @ (if typ = 0 \<and> funcData r \<noteq> None then [(data_address r, b)] else [])\<rparr>)"

definition data_effect :: "nat \<Rightarrow> ihex_tReader \<Rightarrow> 8 word \<Rightarrow> ihex_tReader" where
  "data_effect k r b =
     (let lx = lexer r; typ = rectyp (record_data lx) in
      r\<lparr>lexer := lx\<lparr>
           state := (if k = 0 then IHEX_LEXER_STATE_WAIT_CHECK_SUM
                     else IHEX_LEXER_STATE_WAIT_DATA),
           num_expected_characters := (if k = 0 then 2 else of_nat (2 * k)),
           ext_offset_byte_pos :=
             (if typ = 2 \<or> typ = 4 then ext_offset_byte_pos lx - 1
              else ext_offset_byte_pos lx),
           ext_offset := ext_next typ (ext_offset lx) (ext_offset_byte_pos lx) b,
           rec_byte_offset := rec_byte_offset lx + 1,
           calc_chksum := calc_chksum lx + b,
           record_data := (record_data lx)\<lparr>data := 0\<rparr>\<rparr>,
        calls := calls r @ (if typ = 0 \<and> funcData r \<noteq> None then [(data_address r, b)] else [])\<rparr>)"

fun payload_run :: "ihex_tReader \<Rightarrow> 8 word list \<Rightarrow> ihex_tMessage list \<times> ihex_tReader" where
  "payload_run r [] = ([], r)"
| "payload_run r (b # bs) =
     (IHEX_MESSAGE_CONTINUE # data_message r b # fst (payload_run (data_effect (length bs) r b) bs),
      snd (payload_run (data_effect (length bs) r b) bs))"

fun data_calls :: "32 word \<Rightarrow> 16 word \<Rightarrow> 8 word list \<Rightarrow> (32 word \<times> 8 word) list" where
  "data_calls base k [] = []"
| "data_calls base k (b # bs) = (base + ucast k, b) # data_calls base (k + 1) bs"

fun data_msgs ::
  "ihex_tDataCallback option \<Rightarrow> 32 word \<Rightarrow> 16 word \<Rightarrow> 8 word list \<Rightarrow> ihex_tMessage list" where
  "data_msgs f base k [] = []"
| "data_msgs f base k (b # bs) =
     IHEX_MESSAGE_CONTINUE
       # (case f of None \<Rightarrow> IHEX_MESSAGE_CONTINUE | Some g \<Rightarrow> g (base + ucast k) b)
       # data_msgs f base (k + 1) bs"

definition header_state ::
  "ihex_tReader \<Rightarrow> 8 word \<Rightarrow> 8 word \<Rightarrow> 8 word \<Rightarrow> 8 word \<Rightarrow> ihex_tReader" where
  "header_state r len hi lo typ =
     r\<lparr>lexer := \<lparr>
         state = (if len > 0 then IHEX_LEXER_STATE_WAIT_DATA else IHEX_LEXER_STATE_WAIT_CHECK_SUM),
         num_expected_characters = (if len > 0 then ucast len * 2 else 2),
         ext_offset_byte_pos =
           (if typ = 2 then 1 else if typ = 4 then 3 else ext_offset_byte_pos (lexer r)),
         ext_offset = (if typ = 2 \<or> typ = 4 then 0 else ext_offset (lexer r)),
         rec_byte_offset = 0,
         calc_chksum = len + hi + lo + typ,
         record_data = \<lparr>record_mark = 0x3A, reclen = len, load_offset = word_cat hi lo,
                         rectyp = typ, data = 0, target_check_sum = 0\<rparr>\<rparr>\<rparr>"

definition final_message :: "8 word \<Rightarrow> 8 word \<Rightarrow> 8 word \<Rightarrow> ihex_tMessage" where
  "final_message typ tot ck =
     (if typ = 1 then IHEX_MESSAGE_END
      else if - tot \<noteq> ck then IHEX_MESSAGE_CHECK_SUM_ERROR
      else IHEX_MESSAGE_CONTINUE)"

definition record_end :: "ihex_tReader \<Rightarrow> 8 word \<Rightarrow> ihex_tReader" where
  "record_end r ck =
     r\<lparr>lexer := (lexer r)\<lparr>state := IHEX_LEXER_STATE_WAIT_COLON,
       num_expected_characters := 0,
       calc_chksum := - calc_chksum (lexer r),
       record_data := (record_data (lexer r))\<lparr>target_check_sum := ck\<rparr>\<rparr>\<rparr>"

text \<open>\<open>inside r xs\<close>: fed the bytes \<open>xs\<close>, the reader \<open>r\<close> is not waiting for a record mark
  before any of them.\<close>

definition inside :: "ihex_tReader \<Rightarrow> 8 word list \<Rightarrow> bool" where
  "inside r xs \<longleftrightarrow>
     (\<forall>k < length xs. state (lexer (snd (feed r (take k xs)))) \<noteq> IHEX_LEXER_STATE_WAIT_COLON)"

text \<open>
  Type-00 records that follow one another: each is given by its digits and the bytes they
  spell (length, address high and low, payload, checksum field, whatever the latter is);
  \<open>record_lines\<close> is the stream of their lines and \<open>record_calls base\<close> the callback
  invocations they are due on the extension base \<open>base\<close>.
\<close>

type_synonym data_record = "8 word list \<times> 8 word \<times> 8 word \<times> 8 word \<times> 8 word list \<times> 8 word"

fun data_record_ok :: "data_record \<Rightarrow> bool" where
  "data_record_ok (ds, len, hi, lo, payload, ck) \<longleftrightarrow>
     hex_text ds ([len, hi, lo, 0] @ payload @ [ck]) \<and> length payload = unat len"

fun record_lines :: "data_record list \<Rightarrow> 8 word list" where
  "record_lines [] = []"
| "record_lines ((ds, len, hi, lo, payload, ck) # rs) = (0x3A # ds) @ record_lines rs"

fun record_calls :: "32 word \<Rightarrow> data_record list \<Rightarrow> (32 word \<times> 8 word) list" where
  "record_calls base [] = []"
| "record_calls base ((ds, len, hi, lo, payload, ck) # rs) =
     map (\<lambda>i. (base + ucast (word_cat hi lo :: 16 word) + of_nat i, payload ! i)) [0..<unat len]
       @ record_calls base rs"


section \<open>Bits and bytes\<close>

text \<open>The digit inserted at a position replaces that nibble and no other; two digits
  give the byte they spell, four digits the 16-bit offset; the checksum arithmetic at
  32 bits, cut to 8, is addition and negation of bytes.\<close>

lemma digit_value_less: "is_hex_digit d \<Longrightarrow> digit_value d < 16"
  unfolding is_hex_digit_def digit_value_def
  by (auto simp: word_le_nat_alt)

lemma fifteen_mask16: "(0x000F :: 16 word) = mask 4" 
  by (simp add: mask_eq_exp_minus_1)

lemma fifteen_mask8: "(0x0F :: 8 word) = mask 4" 
  by (simp add: mask_eq_exp_minus_1)

lemma InsertDigit_bit:
  "bit (ihex_InsertDigit x v p) n \<longleftrightarrow> n < 16 \<and>
     (if unat p * 4 \<le> n \<and> n < unat p * 4 + 4 then bit v (n - unat p * 4) else bit x n)"
  unfolding ihex_InsertDigit_def Let_def fifteen_mask16 fifteen_mask8
  by (auto simp: bit_simps)

lemma unat_CharToValue: "is_hex_digit d \<Longrightarrow> unat (ihex_CharToValue d) = digit_value d"
  unfolding is_hex_digit_def digit_value_def ihex_CharToValue_def
  by (auto simp: word_le_nat_alt unat_sub unat_word_ariths)

lemma CharToValue_hex: "is_hex_digit d \<Longrightarrow> ihex_CharToValue d = of_nat (digit_value d)"
  using unat_CharToValue [of d] by (metis of_nat_unat ucast_id)

lemma CharToValue_bit: 
  assumes "is_hex_digit d" and "bit (ihex_CharToValue d) n" shows "n < 4"
proof -
  have "bit (digit_value d) n"
    using assms by (simp add: CharToValue_hex bit_of_nat_iff)
  moreover have "take_bit 4 (digit_value d) = digit_value d"
    using digit_value_less [OF assms(1)] by (simp add: take_bit_nat_eq_self)
  ultimately show ?thesis
    by (metis bit_take_bit_iff)
qed

lemma CharToValue_nonneg: "is_hex_digit d \<Longrightarrow> \<not> sint (ihex_CharToValue d) < 0"
  using CharToValue_bit [of d 7] by (auto simp: bit_last_iff [symmetric])

lemma hex_pair_bits:
  assumes "is_hex_digit h" and "is_hex_digit l"
  shows "hex_pair h l = push_bit 4 (ihex_CharToValue h) OR ihex_CharToValue l"
proof -
  have "hex_pair h l = push_bit 4 (ihex_CharToValue h) + ihex_CharToValue l"
    by (simp add: hex_pair_def CharToValue_hex assms push_bit_eq_mult)
  also have "\<dots> = push_bit 4 (ihex_CharToValue h) OR ihex_CharToValue l"
    by (rule disjunctive_add) (auto simp: bit_simps dest: CharToValue_bit [OF assms(2)])
  finally show ?thesis .
qed

lemma field2:
  assumes "is_hex_digit h" and "is_hex_digit l"
  shows "(ucast (ihex_InsertDigit (ucast ((ucast (ihex_InsertDigit (ucast (x :: 8 word))
           (ihex_CharToValue h) 1)) :: 8 word)) (ihex_CharToValue l) 0) :: 8 word) = hex_pair h l"
  unfolding hex_pair_bits [OF assms]
  by (rule bit_eqI) (auto simp: bit_simps InsertDigit_bit dest: CharToValue_bit [OF assms(1)] CharToValue_bit [OF assms(2)])

lemma field4:
  assumes "is_hex_digit a" and "is_hex_digit b" and "is_hex_digit c" and "is_hex_digit d"
  shows "ihex_InsertDigit (ihex_InsertDigit (ihex_InsertDigit (ihex_InsertDigit x
           (ihex_CharToValue a) 3) (ihex_CharToValue b) 2) (ihex_CharToValue c) 1) (ihex_CharToValue d) 0
         = word_cat (hex_pair a b) (hex_pair c d)"
  unfolding hex_pair_bits [OF assms(1,2)] hex_pair_bits [OF assms(3,4)]
  by (rule bit_eqI) (auto simp: bit_simps InsertDigit_bit bit_word_cat_iff 
    dest: CharToValue_bit [OF assms(1)] CharToValue_bit [OF assms(2)] CharToValue_bit [OF assms(3)] CharToValue_bit [OF assms(4)])

lemma ucast32_8_add: "(ucast ((x :: 32 word) + y) :: 8 word) = ucast x + ucast y"
  by (simp add: word_unat_eq_iff unsigned_ucast_eq unat_word_ariths take_bit_eq_mod mod_mod_cancel mod_simps)

lemma ucast32_8_not: "(ucast (NOT (x :: 32 word)) :: 8 word) = NOT (ucast x)"
  by (rule bit_eqI) (auto simp: bit_simps)

lemma add_chksum_byte: "add_chksum c (ucast (ucast (b :: 8 word) :: 16 word)) = c + b"
  unfolding add_chksum_def ucast32_8_add
  by (simp add: ucast_down_ucast_id is_down ucast_up_ucast is_up)

lemma cat_hi: "(ucast (ucast (drop_bit 8 (word_cat (hi :: 8 word) (lo :: 8 word) :: 16 word)) :: 32 word) :: 8 word) = hi"
  by (rule bit_eqI) (auto simp: bit_simps bit_word_cat_iff)

lemma cat_lo: "(ucast (ucast ((word_cat (hi :: 8 word) (lo :: 8 word) :: 16 word) AND 0xFF) :: 32 word) :: 8 word) = lo"
proof -
  have m: "(0xFF :: 16 word) = mask 8" by (simp add: mask_eq_exp_minus_1)
  show ?thesis unfolding m
    by (rule bit_eqI) (auto simp: bit_simps bit_word_cat_iff)
qed

lemma add_chksum_offset:
  "add_chksum c (ucast (drop_bit 8 (word_cat (hi :: 8 word) (lo :: 8 word) :: 16 word))
                   + ucast ((word_cat hi lo :: 16 word) AND 0xFF)) = c + hi + lo"
  unfolding add_chksum_def ucast32_8_add cat_hi cat_lo
  by (simp add: ucast_down_ucast_id is_down ucast_up_ucast is_up)

lemma chksum_negate: "(ucast (NOT (ucast (c :: 8 word) :: 32 word) + 1) :: 8 word) = - c"
  unfolding ucast32_8_add ucast32_8_not
  by (simp add: ucast_down_ucast_id is_down minus_eq_not_plus_1)

section \<open>One field at a time\<close>

text \<open>Each lemma runs the reader over the digits of one field and gives the reader after
  them in full.\<close>

lemma Put_hex: "is_hex_digit d \<Longrightarrow> ihex_Put r d = ihex_Lexer r d"
  unfolding ihex_Put_def is_hex_digit_def ihex_IsValidData_def
  by (auto simp: word_le_nat_alt)

lemma hex_not_colon: "is_hex_digit d \<Longrightarrow> d \<noteq> 0x3A"
  unfolding is_hex_digit_def by (auto simp: word_le_nat_alt)

lemma feed_append:
  "feed r (xs @ ys) =
     (fst (feed r xs) @ fst (feed (snd (feed r xs)) ys), snd (feed (snd (feed r xs)) ys))"
  by (induction xs arbitrary: r) (simp_all add: split_def Let_def)

lemma feed_Cons:
  "feed r (d # ds) =
     (fst (ihex_Put r d) # fst (feed (snd (ihex_Put r d)) ds),
      snd (feed (snd (ihex_Put r d)) ds))"
  by (simp add: split_def Let_def)

lemma colon_step:
  assumes "state (lexer r) = IHEX_LEXER_STATE_WAIT_COLON"
  shows "ihex_Put r 0x3A = (IHEX_MESSAGE_CONTINUE,
    r\<lparr>lexer := (lexer r)\<lparr>state := IHEX_LEXER_STATE_WAIT_BYTE_COUNT,
       num_expected_characters := 2, rec_byte_offset := 0, calc_chksum := 0,
       record_data := \<lparr>record_mark = 0x3A, reclen = 0, load_offset = 0, rectyp = 0,
                          data = 0, target_check_sum = 0\<rparr>\<rparr>\<rparr>)"
  using assms
  by (simp add: ihex_Put_def ihex_IsValidData_def ihex_Lexer_def ihex_LexerTokenStream_def
      ihex_SetNextState_def NUM_BYTE_COUNT_DIGITS_def Let_def)

lemma reclen_field:
  assumes "state (lexer r) = IHEX_LEXER_STATE_WAIT_BYTE_COUNT"
    and "num_expected_characters (lexer r) = 2"
    and "is_hex_digit h" and "is_hex_digit l"
  shows "feed r [h, l] = ([IHEX_MESSAGE_CONTINUE, IHEX_MESSAGE_CONTINUE],
    r\<lparr>lexer := (lexer r)\<lparr>state := IHEX_LEXER_STATE_WAIT_ADDRESS,
       num_expected_characters := 4, 
       calc_chksum := calc_chksum (lexer r) + hex_pair h l,
       record_data := (record_data (lexer r))\<lparr>reclen := hex_pair h l\<rparr>\<rparr>\<rparr>)"
  using assms
  by (simp add: Put_hex ihex_Lexer_def ihex_LexerTokenStream_def CharToValue_nonneg
      ihex_SetNextState_def NUM_ADDRESS_DIGITS_def Let_def field2 add_chksum_byte)

lemma address_field:
  assumes "state (lexer r) = IHEX_LEXER_STATE_WAIT_ADDRESS"
    and "num_expected_characters (lexer r) = 4"
    and "is_hex_digit a" and "is_hex_digit b" and "is_hex_digit c" and "is_hex_digit d" 
  shows "feed r [a, b, c, d] = ([IHEX_MESSAGE_CONTINUE, IHEX_MESSAGE_CONTINUE, IHEX_MESSAGE_CONTINUE, IHEX_MESSAGE_CONTINUE],
    r\<lparr>lexer := (lexer r)\<lparr>state := IHEX_LEXER_STATE_WAIT_TYPE,
       num_expected_characters := 2, 
       calc_chksum := calc_chksum (lexer r) + hex_pair a b + hex_pair c d,
       record_data := (record_data (lexer r))\<lparr>load_offset := word_cat (hex_pair a b) (hex_pair c d)\<rparr>\<rparr>\<rparr>)"
  using assms
  by (simp add: Put_hex ihex_Lexer_def ihex_LexerTokenStream_def CharToValue_nonneg
      ihex_SetNextState_def NUM_TYPE_DIGITS_def Let_def field4 add_chksum_offset)

lemma type_field:
  assumes "state (lexer r) = IHEX_LEXER_STATE_WAIT_TYPE"
    and "num_expected_characters (lexer r) = 2"
    and "is_hex_digit h" and "is_hex_digit l"
  shows "feed r [h, l] = ([IHEX_MESSAGE_CONTINUE, IHEX_MESSAGE_CONTINUE],
    r\<lparr>lexer := (lexer r)\<lparr>
       state := (if reclen (record_data (lexer r)) > 0 then IHEX_LEXER_STATE_WAIT_DATA
                 else IHEX_LEXER_STATE_WAIT_CHECK_SUM),
       num_expected_characters :=
         (if reclen (record_data (lexer r)) > 0 then ucast (reclen (record_data (lexer r))) * 2
          else 2),
       ext_offset_byte_pos :=
         (if hex_pair h l = 2 then 1 else if hex_pair h l = 4 then 3
          else ext_offset_byte_pos (lexer r)),
       ext_offset :=
         (if hex_pair h l = 2 \<or> hex_pair h l = 4 then 0 else ext_offset (lexer r)),
       calc_chksum := calc_chksum (lexer r) + hex_pair h l,
       record_data := (record_data (lexer r))\<lparr>rectyp := hex_pair h l, data := 0\<rparr>\<rparr>\<rparr>)"
  using assms
  by (simp add: Put_hex ihex_Lexer_def ihex_LexerTokenStream_def CharToValue_nonneg
      ihex_SetNextState_def NUM_CHECK_SUM_DIGITS_def Let_def field2 add_chksum_byte
      IHEX_TYPE_02_EXTENDED_SEGMENT_ADDRESS_RECORD_def IHEX_TYPE_04_EXTENDED_LINEAR_ADDRESS_RECORD_def)

lemma checksum_field:
  assumes "state (lexer r) = IHEX_LEXER_STATE_WAIT_CHECK_SUM"
    and "num_expected_characters (lexer r) = 2"
    and "is_hex_digit h" and "is_hex_digit l"
  shows "feed r [h, l] =
    ([IHEX_MESSAGE_CONTINUE,
      if rectyp (record_data (lexer r)) = 1 then IHEX_MESSAGE_END
      else if - calc_chksum (lexer r) \<noteq> hex_pair h l then IHEX_MESSAGE_CHECK_SUM_ERROR
      else IHEX_MESSAGE_CONTINUE],
    r\<lparr>lexer := (lexer r)\<lparr>state := IHEX_LEXER_STATE_WAIT_COLON,
       num_expected_characters := 0,
       calc_chksum := - calc_chksum (lexer r),
       record_data := (record_data (lexer r))\<lparr>target_check_sum := hex_pair h l\<rparr>\<rparr>\<rparr>)"
  using assms
  by (simp add: Put_hex ihex_Lexer_def ihex_LexerTokenStream_def CharToValue_nonneg
      Let_def field2 chksum_negate IHEX_TYPE_01_END_OF_FILE_RECORD_def)

lemma unat_of_nat16: "n < 65536 \<Longrightarrow> unat (of_nat n :: 16 word) = n"
  by (simp add: unat_of_nat)

lemma odd_count:
  assumes "k < 255"
  shows "(ucast ((of_nat (2 * Suc k) - 1 :: 16 word) mod 2) :: 8 word) = 1"
    and "(of_nat (2 * Suc k) - 1 :: 16 word) \<noteq> 0"
proof -
  have e: "(of_nat (2 * Suc k) - 1 :: 16 word) = of_nat (2 * k + 1)" by simp
  have u: "unat (of_nat (2 * k + 1) :: 16 word) = 2 * k + 1"
    by (rule unat_of_nat16) (use assms in simp)
  have "unat ((of_nat (2 * k + 1) :: 16 word) mod 2) = 1"
    by (simp only: unat_mod u) simp
  then have "(of_nat (2 * k + 1) :: 16 word) mod 2 = 1"
    by (simp add: word_unat_eq_iff)
  then show "(ucast ((of_nat (2 * Suc k) - 1 :: 16 word) mod 2) :: 8 word) = 1"
    by (simp only: e) simp
  show "(of_nat (2 * Suc k) - 1 :: 16 word) \<noteq> 0"
    using u by (simp only: e word_unat_eq_iff) simp
qed

lemma even_count:
  assumes "k < 255"
  shows "(ucast ((of_nat (2 * Suc k) - 1 - 1 :: 16 word) mod 2) :: 8 word) = 0"
    and "(of_nat (2 * Suc k) - 1 - 1 :: 16 word) = 0 \<longleftrightarrow> k = 0"
    and "(of_nat (2 * Suc k) - 1 - 1 :: 16 word) = of_nat (2 * k)"
proof -
  show e: "(of_nat (2 * Suc k) - 1 - 1 :: 16 word) = of_nat (2 * k)" by simp
  have u: "unat (of_nat (2 * k) :: 16 word) = 2 * k"
    by (rule unat_of_nat16) (use assms in simp)
  have "unat ((of_nat (2 * k) :: 16 word) mod 2) = 0"
    by (simp only: unat_mod u) simp
  then have "(of_nat (2 * k) :: 16 word) mod 2 = 0"
    by (simp add: word_unat_eq_iff)
  then show "(ucast ((of_nat (2 * Suc k) - 1 - 1 :: 16 word) mod 2) :: 8 word) = 0"
    by (simp only: e) simp
  show "(of_nat (2 * Suc k) - 1 - 1 :: 16 word) = 0 \<longleftrightarrow> k = 0"
    using u by (simp only: e word_unat_eq_iff) simp
qed

lemma add_chksum_byte32: "add_chksum c (ucast (b :: 8 word)) = c + b"
  unfolding add_chksum_def ucast32_8_add
  by (simp add: ucast_down_ucast_id is_down)

lemma token_data:
  "ihex_LexerTokenStream r IHEX_LEXER_TOKENTYPE_DATA (ucast b) =
     (data_message r b, token_effect r b)"
proof -
  consider (data) "rectyp (record_data (lexer r)) = 0"
    | (seg) "rectyp (record_data (lexer r)) = 2"
    | (lin) "rectyp (record_data (lexer r)) = 4"
    | (other) "rectyp (record_data (lexer r)) \<noteq> 0" "rectyp (record_data (lexer r)) \<noteq> 2"
        "rectyp (record_data (lexer r)) \<noteq> 4"
    by blast
  then show ?thesis
  proof cases
    case data
    then show ?thesis
      by (cases "funcData r")
        (simp_all add: ihex_LexerTokenStream_def Let_def add_chksum_byte32 data_message_def
          token_effect_def data_address_def ext_next_def IHEX_TYPE_00_DATA_RECORD_def
          ucast_down_ucast_id is_down ucast_up_ucast is_up)
  next
    case seg
    then show ?thesis
      by (simp add: ihex_LexerTokenStream_def Let_def add_chksum_byte32 data_message_def
          token_effect_def ext_next_def IHEX_TYPE_00_DATA_RECORD_def
          IHEX_TYPE_02_EXTENDED_SEGMENT_ADDRESS_RECORD_def
          ucast_down_ucast_id is_down ucast_up_ucast is_up)
  next
    case lin
    then show ?thesis
      by (simp add: ihex_LexerTokenStream_def Let_def add_chksum_byte32 data_message_def
          token_effect_def ext_next_def IHEX_TYPE_00_DATA_RECORD_def
          IHEX_TYPE_02_EXTENDED_SEGMENT_ADDRESS_RECORD_def
          IHEX_TYPE_04_EXTENDED_LINEAR_ADDRESS_RECORD_def
          ucast_down_ucast_id is_down ucast_up_ucast is_up)
  next
    case other
    then show ?thesis
      by (simp add: ihex_LexerTokenStream_def Let_def add_chksum_byte32 data_message_def
          token_effect_def ext_next_def IHEX_TYPE_00_DATA_RECORD_def
          IHEX_TYPE_02_EXTENDED_SEGMENT_ADDRESS_RECORD_def
          IHEX_TYPE_04_EXTENDED_LINEAR_ADDRESS_RECORD_def
          ucast_down_ucast_id is_down ucast_up_ucast is_up)
  qed
qed

lemma data_digit_hi:
  assumes "state (lexer r) = IHEX_LEXER_STATE_WAIT_DATA"
    and "num_expected_characters (lexer r) = of_nat (2 * Suc k)" and "k < 255"
    and "is_hex_digit h"
  shows "ihex_Put r h = (IHEX_MESSAGE_CONTINUE,
    r\<lparr>lexer := (lexer r)\<lparr>num_expected_characters := of_nat (2 * Suc k) - 1,
       record_data := (record_data (lexer r))\<lparr>data :=
         ucast (ihex_InsertDigit (ucast (data (record_data (lexer r)))) (ihex_CharToValue h) 1)\<rparr>\<rparr>\<rparr>)"
  using assms(1,2,4) odd_count [OF assms(3)]
  by (simp add: Put_hex ihex_Lexer_def CharToValue_nonneg Let_def)

lemma data_digit_lo:
  assumes "state (lexer r) = IHEX_LEXER_STATE_WAIT_DATA"
    and "num_expected_characters (lexer r) = of_nat (2 * Suc k) - 1" and "k < 255"
    and "is_hex_digit l"
    and "data (record_data (lexer r)) = ucast (ihex_InsertDigit (ucast (x :: 8 word)) (ihex_CharToValue h) 1)"
    and "is_hex_digit h"
  shows "ihex_Put r l = (data_message r (hex_pair h l),
    (token_effect r (hex_pair h l))\<lparr>lexer := (lexer (token_effect r (hex_pair h l)))\<lparr>
       state := (if k = 0 then IHEX_LEXER_STATE_WAIT_CHECK_SUM
                     else IHEX_LEXER_STATE_WAIT_DATA),
       num_expected_characters := (if k = 0 then 2 else of_nat (2 * k)),
       record_data := (record_data (lexer r))\<lparr>data := 0\<rparr>\<rparr>\<rparr>)"
  using assms(1,2,4,5,6) even_count [OF assms(3)]
  by (simp add: Put_hex ihex_Lexer_def CharToValue_nonneg Let_def field2 token_data
      ihex_SetNextState_def NUM_CHECK_SUM_DIGITS_def
      data_message_def token_effect_def data_address_def split: option.split)

lemma data_byte:
  assumes "state (lexer r) = IHEX_LEXER_STATE_WAIT_DATA"
    and "num_expected_characters (lexer r) = of_nat (2 * Suc k)" and "k < 255"
    and "is_hex_digit h" and "is_hex_digit l"
  shows "feed r [h, l] =
    ([IHEX_MESSAGE_CONTINUE, data_message r (hex_pair h l)], data_effect k r (hex_pair h l))"
proof -
  define r1 where "r1 = r\<lparr>lexer := (lexer r)\<lparr>num_expected_characters := of_nat (2 * Suc k) - 1,
       record_data := (record_data (lexer r))\<lparr>data :=
         ucast (ihex_InsertDigit (ucast (data (record_data (lexer r)))) (ihex_CharToValue h) 1)\<rparr>\<rparr>\<rparr>"
  have hi: "ihex_Put r h = (IHEX_MESSAGE_CONTINUE, r1)"
    unfolding r1_def by (rule data_digit_hi [OF assms(1-4)])
  have lo: "ihex_Put r1 l = (data_message r1 (hex_pair h l),
    (token_effect r1 (hex_pair h l))\<lparr>lexer := (lexer (token_effect r1 (hex_pair h l)))\<lparr>
       state := (if k = 0 then IHEX_LEXER_STATE_WAIT_CHECK_SUM
                     else IHEX_LEXER_STATE_WAIT_DATA),
       num_expected_characters := (if k = 0 then 2 else of_nat (2 * k)),
       record_data := (record_data (lexer r1))\<lparr>data := 0\<rparr>\<rparr>\<rparr>)"
    by (rule data_digit_lo [where x = "data (record_data (lexer r))"])
      (simp_all add: r1_def assms)
  have m: "data_message r1 (hex_pair h l) = data_message r (hex_pair h l)"
    by (simp add: r1_def data_message_def data_address_def split: option.split)
  have e: "(token_effect r1 (hex_pair h l))\<lparr>lexer := (lexer (token_effect r1 (hex_pair h l)))\<lparr>
       state := (if k = 0 then IHEX_LEXER_STATE_WAIT_CHECK_SUM
                     else IHEX_LEXER_STATE_WAIT_DATA),
       num_expected_characters := (if k = 0 then 2 else of_nat (2 * k)),
       record_data := (record_data (lexer r1))\<lparr>data := 0\<rparr>\<rparr>\<rparr> = data_effect k r (hex_pair h l)"
    by (simp add: r1_def token_effect_def data_effect_def data_address_def Let_def)
  show ?thesis
    by (simp add: hi lo m e)
qed

section \<open>Header and payload\<close>

lemma hex_text_Cons:
  assumes "hex_text ds (b # bs)"
  obtains h l ds' where "ds = h # l # ds'" "is_hex_digit h" "is_hex_digit l"
    "b = hex_pair h l" "hex_text ds' bs"
  using assms by (cases "(ds, b # bs)" rule: hex_text.cases) auto

lemma hex_text_Nil: "hex_text ds [] \<longleftrightarrow> ds = []"
  by (cases "(ds, [] :: 8 word list)" rule: hex_text.cases) auto

lemma hex_text_append:
  assumes "hex_text ds (xs @ ys)"
  obtains ds1 ds2 where "ds = ds1 @ ds2" "hex_text ds1 xs" "hex_text ds2 ys"
  using assms
proof (induction xs arbitrary: ds thesis)
  case Nil
  then show ?case by (metis append_Nil hex_text.simps(1))
next
  case (Cons x xs)
  from Cons.prems(2) obtain h l ds' where d: "ds = h # l # ds'" "is_hex_digit h" "is_hex_digit l"
    "x = hex_pair h l" "hex_text ds' (xs @ ys)"
    by (auto elim: hex_text_Cons)
  from Cons.IH [OF _ d(5)] obtain e1 e2 where e: "ds' = e1 @ e2" "hex_text e1 xs" "hex_text e2 ys"
    by blast
  show ?case
    by (rule Cons.prems(1) [of "h # l # e1" e2]) (simp_all add: d e)
qed

lemma feed_header:
  assumes "state (lexer r) = IHEX_LEXER_STATE_WAIT_COLON"
    and "hex_text ds [len, hi, lo, typ]"
  shows "feed r (0x3A # ds) = (replicate 9 IHEX_MESSAGE_CONTINUE, header_state r len hi lo typ)"
proof -
  from assms(2) obtain l1 l0 a3 a2 a1 a0 t1 t0 where
    ds: "ds = [l1, l0] @ [a3, a2, a1, a0] @ [t1, t0]"
    and hex: "is_hex_digit l1" "is_hex_digit l0" "is_hex_digit a3" "is_hex_digit a2"
      "is_hex_digit a1" "is_hex_digit a0" "is_hex_digit t1" "is_hex_digit t0"
    and val: "len = hex_pair l1 l0" "hi = hex_pair a3 a2" "lo = hex_pair a1 a0"
      "typ = hex_pair t1 t0"
    by (auto elim!: hex_text_Cons simp: hex_text_Nil)
  define r1 where "r1 = snd (ihex_Put r 0x3A)"
  define r2 where "r2 = snd (feed r1 [l1, l0])"
  define r3 where "r3 = snd (feed r2 [a3, a2, a1, a0])"
  have s1: "ihex_Put r 0x3A = (IHEX_MESSAGE_CONTINUE, r1)"
    and e1: "state (lexer r1) = IHEX_LEXER_STATE_WAIT_BYTE_COUNT"
       "num_expected_characters (lexer r1) = 2"
    unfolding r1_def by (simp_all add: colon_step [OF assms(1)])
  have s2: "feed r1 [l1, l0] = ([IHEX_MESSAGE_CONTINUE, IHEX_MESSAGE_CONTINUE], r2)"
    and e2: "state (lexer r2) = IHEX_LEXER_STATE_WAIT_ADDRESS"
       "num_expected_characters (lexer r2) = 4"
    unfolding r2_def by (simp_all add: reclen_field [OF e1 hex(1,2)] del: feed.simps)
  have s3: "feed r2 [a3, a2, a1, a0] = ([IHEX_MESSAGE_CONTINUE, IHEX_MESSAGE_CONTINUE, IHEX_MESSAGE_CONTINUE, IHEX_MESSAGE_CONTINUE], r3)"
    and e3: "state (lexer r3) = IHEX_LEXER_STATE_WAIT_TYPE"
       "num_expected_characters (lexer r3) = 2"
    unfolding r3_def by (simp_all add: address_field [OF e2 hex(3,4,5,6)] del: feed.simps)
  note s4 = type_field [OF e3 hex(7,8)]
  have r3: "r3 = r\<lparr>lexer := (lexer r)\<lparr>state := IHEX_LEXER_STATE_WAIT_TYPE,
       num_expected_characters := 2, rec_byte_offset := 0, calc_chksum := len + hi + lo,
       record_data := \<lparr>record_mark = 0x3A, reclen = len, load_offset = word_cat hi lo, rectyp = 0,
                          data = 0, target_check_sum = 0\<rparr>\<rparr>\<rparr>"
  proof -
    have "r1 = snd (IHEX_MESSAGE_CONTINUE,
      r\<lparr>lexer := (lexer r)\<lparr>state := IHEX_LEXER_STATE_WAIT_BYTE_COUNT,
       num_expected_characters := 2, rec_byte_offset := 0, calc_chksum := 0,
       record_data := \<lparr>record_mark = 0x3A, reclen = 0, load_offset = 0, rectyp = 0,
                          data = 0, target_check_sum = 0\<rparr>\<rparr>\<rparr>)"
      unfolding r1_def by (simp only: colon_step [OF assms(1)])
    moreover have "r2 = snd ([IHEX_MESSAGE_CONTINUE, IHEX_MESSAGE_CONTINUE],
      r1\<lparr>lexer := (lexer r1)\<lparr>state := IHEX_LEXER_STATE_WAIT_ADDRESS,
       num_expected_characters := 4,
       calc_chksum := calc_chksum (lexer r1) + hex_pair l1 l0,
       record_data := (record_data (lexer r1))\<lparr>reclen := hex_pair l1 l0\<rparr>\<rparr>\<rparr>)"
      unfolding r2_def by (simp only: reclen_field [OF e1 hex(1,2)])
    moreover have "r3 = snd ([IHEX_MESSAGE_CONTINUE, IHEX_MESSAGE_CONTINUE,
        IHEX_MESSAGE_CONTINUE, IHEX_MESSAGE_CONTINUE],
      r2\<lparr>lexer := (lexer r2)\<lparr>state := IHEX_LEXER_STATE_WAIT_TYPE,
       num_expected_characters := 2,
       calc_chksum := calc_chksum (lexer r2) + hex_pair a3 a2 + hex_pair a1 a0,
       record_data := (record_data (lexer r2))\<lparr>load_offset :=
         word_cat (hex_pair a3 a2) (hex_pair a1 a0)\<rparr>\<rparr>\<rparr>)"
      unfolding r3_def by (simp only: address_field [OF e2 hex(3,4,5,6)])
    ultimately show ?thesis by (simp add: val)
  qed
  have "feed r (0x3A # ds) = (replicate 9 IHEX_MESSAGE_CONTINUE, snd (feed r3 [t1, t0]))"
    unfolding ds feed_Cons [of r] feed_append s1 snd_conv fst_conv s2 s3
    by (simp add: eval_nat_numeral s4 del: feed.simps)
  moreover have "snd (feed r3 [t1, t0]) = header_state r len hi lo typ"
    unfolding s4 by (simp add: r3 header_state_def val del: feed.simps)
  ultimately show ?thesis by simp
qed

lemma data_effect_simps:
  "state (lexer (data_effect k r b)) =
     (if k = 0 then IHEX_LEXER_STATE_WAIT_CHECK_SUM else IHEX_LEXER_STATE_WAIT_DATA)"
  "num_expected_characters (lexer (data_effect k r b)) = (if k = 0 then 2 else of_nat (2 * k))"
  "calc_chksum (lexer (data_effect k r b)) = calc_chksum (lexer r) + b"
  "rec_byte_offset (lexer (data_effect k r b)) = rec_byte_offset (lexer r) + 1"
  "record_data (lexer (data_effect k r b)) = (record_data (lexer r))\<lparr>data := 0\<rparr>"
  "funcData (data_effect k r b) = funcData r"
  "calls (data_effect k r b) =
     calls r @ (if rectyp (record_data (lexer r)) = 0 \<and> funcData r \<noteq> None
                then [(data_address r, b)] else [])"
  "ext_offset (lexer (data_effect k r b)) =
     ext_next (rectyp (record_data (lexer r))) (ext_offset (lexer r))
       (ext_offset_byte_pos (lexer r)) b"
  "ext_offset_byte_pos (lexer (data_effect k r b)) =
     (if rectyp (record_data (lexer r)) = 2 \<or> rectyp (record_data (lexer r)) = 4
      then ext_offset_byte_pos (lexer r) - 1 else ext_offset_byte_pos (lexer r))"
  by (simp_all add: data_effect_def Let_def)

lemma feed_payload:
  assumes "hex_text ds bs" and "state (lexer r) = IHEX_LEXER_STATE_WAIT_DATA"
    and "num_expected_characters (lexer r) = of_nat (2 * length bs)" and "length bs \<le> 255"
  shows "feed r ds = payload_run r bs"
  using assms
proof (induction bs arbitrary: ds r)
  case Nil
  then show ?case by (simp add: hex_text_Nil)
next
  case (Cons b bs)
  from Cons.prems(1) obtain h l ds' where d: "ds = [h, l] @ ds'" "is_hex_digit h"
    "is_hex_digit l" "b = hex_pair h l" "hex_text ds' bs"
    by (auto elim: hex_text_Cons)
  have k: "length bs < 255" using Cons.prems(4) by simp
  have n: "num_expected_characters (lexer r) = of_nat (2 * Suc (length bs))"
    using Cons.prems(3) by simp
  note step = data_byte [OF Cons.prems(2) n k d(2,3), folded d(4)]
  show ?case
  proof (cases bs)
    case Nil
    with d(5) have "ds' = []" by (simp add: hex_text_Nil)
    then show ?thesis
      unfolding d(1) feed_append step using Nil by simp
  next
    case (Cons c cs)
    have "feed (data_effect (length bs) r b) ds' = payload_run (data_effect (length bs) r b) bs"
      using Cons k by (intro Cons.IH d(5)) (simp_all add: data_effect_simps)
    then show ?thesis
      unfolding d(1) feed_append step by simp
  qed
qed

lemma payload_run_funcData: "funcData (snd (payload_run r bs)) = funcData r"
  by (induction bs arbitrary: r) (simp_all add: data_effect_simps)

lemma payload_run_record_data:
  "record_data (lexer (snd (payload_run r bs))) =
     (if bs = [] then record_data (lexer r) else (record_data (lexer r))\<lparr>data := 0\<rparr>)"
  by (induction bs arbitrary: r) (simp_all add: data_effect_simps)

lemma payload_run_state:
  "bs \<noteq> [] \<Longrightarrow> state (lexer (snd (payload_run r bs))) = IHEX_LEXER_STATE_WAIT_CHECK_SUM
     \<and> num_expected_characters (lexer (snd (payload_run r bs))) = 2"
proof (induction bs arbitrary: r)
  case Nil
  then show ?case by simp
next
  case (Cons b bs)
  then show ?case by (cases bs) (simp_all add: data_effect_simps)
qed

lemma payload_run_chksum:
  "calc_chksum (lexer (snd (payload_run r bs))) = calc_chksum (lexer r) + sum_list bs"
  by (induction bs arbitrary: r) (simp_all add: data_effect_simps add.assoc)

lemma payload_run_ext:
  assumes "rectyp (record_data (lexer r)) \<noteq> 2" and "rectyp (record_data (lexer r)) \<noteq> 4"
  shows "ext_offset (lexer (snd (payload_run r bs))) = ext_offset (lexer r)"
    and "ext_offset_byte_pos (lexer (snd (payload_run r bs))) = ext_offset_byte_pos (lexer r)"
  using assms
  by (induction bs arbitrary: r) (simp_all add: data_effect_simps ext_next_def)

lemma payload_run_calls_other:
  assumes "rectyp (record_data (lexer r)) \<noteq> 0"
  shows "calls (snd (payload_run r bs)) = calls r"
  using assms
  by (induction bs arbitrary: r) (simp_all add: data_effect_simps)

lemma payload_run_msgs_other:
  assumes "rectyp (record_data (lexer r)) \<noteq> 0"
  shows "fst (payload_run r bs) = replicate (2 * length bs) IHEX_MESSAGE_CONTINUE"
  using assms
  by (induction bs arbitrary: r) (simp_all add: data_effect_simps data_message_def)

lemma payload_run_calls_data:
  assumes "rectyp (record_data (lexer r)) = 0"
  shows "calls (snd (payload_run r bs)) =
     calls r @ (if funcData r = None then []
                else data_calls (ext_offset (lexer r) + ucast (load_offset (record_data (lexer r))))
                       (rec_byte_offset (lexer r)) bs)"
  using assms
  by (induction bs arbitrary: r)
    (simp_all add: data_effect_simps ext_next_def data_address_def)

lemma payload_run_msgs_data:
  assumes "rectyp (record_data (lexer r)) = 0"
  shows "fst (payload_run r bs) =
     data_msgs (funcData r) (ext_offset (lexer r) + ucast (load_offset (record_data (lexer r))))
       (rec_byte_offset (lexer r)) bs"
  using assms
  by (induction bs arbitrary: r)
    (simp_all add: data_effect_simps ext_next_def data_address_def data_message_def
       split: option.split)

lemma payload_run_segment:
  assumes "rectyp (record_data (lexer r)) = 2" and "ext_offset (lexer r) = 0"
    and "ext_offset_byte_pos (lexer r) = 1"
  shows "ext_offset (lexer (snd (payload_run r [s1, s0]))) =
    push_bit 4 (ucast (word_cat s1 s0 :: 16 word))"
  using assms
  apply (simp add: data_effect_simps ext_next_def)
  apply (rule bit_eqI)
  apply (auto simp: bit_simps bit_word_cat_iff dest: bit_imp_le_length)
  done

lemma payload_run_linear:
  assumes "rectyp (record_data (lexer r)) = 4" and "ext_offset (lexer r) = 0"
    and "ext_offset_byte_pos (lexer r) = 3"
  shows "ext_offset (lexer (snd (payload_run r [u1, u0]))) =
    push_bit 16 (ucast (word_cat u1 u0 :: 16 word))"
  using assms
  apply (simp add: data_effect_simps ext_next_def)
  apply (rule bit_eqI)
  apply (auto simp: bit_simps bit_word_cat_iff dest: bit_imp_le_length)
  done

lemma header_state_simps:
  "state (lexer (header_state r len hi lo typ)) =
     (if len > 0 then IHEX_LEXER_STATE_WAIT_DATA else IHEX_LEXER_STATE_WAIT_CHECK_SUM)"
  "num_expected_characters (lexer (header_state r len hi lo typ)) =
     (if len > 0 then ucast len * 2 else 2)"
  "ext_offset_byte_pos (lexer (header_state r len hi lo typ)) =
     (if typ = 2 then 1 else if typ = 4 then 3 else ext_offset_byte_pos (lexer r))"
  "ext_offset (lexer (header_state r len hi lo typ)) =
     (if typ = 2 \<or> typ = 4 then 0 else ext_offset (lexer r))"
  "rec_byte_offset (lexer (header_state r len hi lo typ)) = 0"
  "calc_chksum (lexer (header_state r len hi lo typ)) = len + hi + lo + typ"
  "record_data (lexer (header_state r len hi lo typ)) =
     \<lparr>record_mark = 0x3A, reclen = len, load_offset = word_cat hi lo,
      rectyp = typ, data = 0, target_check_sum = 0\<rparr>"
  "funcData (header_state r len hi lo typ) = funcData r"
  "calls (header_state r len hi lo typ) = calls r"
  by (simp_all add: header_state_def)

section \<open>Whole records\<close>

lemma Begin_state: "state (lexer (ihex_Begin r)) = IHEX_LEXER_STATE_WAIT_COLON"
  by (simp add: ihex_Begin_def)

lemma begun_reader_simps:
  "state (lexer begun_reader) = IHEX_LEXER_STATE_WAIT_COLON"
  "funcData begun_reader = Some always_continue"
  "calls begun_reader = []"
  "ext_offset (lexer begun_reader) = 0"
  by (simp_all add: begun_reader_def ihex_Begin_def ihex_Init_def blank_reader_def)

lemma record_end_simps:
  "state (lexer (record_end r ck)) = IHEX_LEXER_STATE_WAIT_COLON"
  "ext_offset (lexer (record_end r ck)) = ext_offset (lexer r)"
  "funcData (record_end r ck) = funcData r"
  "calls (record_end r ck) = calls r"
  by (simp_all add: record_end_def)

lemma feed_upto_payload:
  assumes st: "state (lexer r) = IHEX_LEXER_STATE_WAIT_COLON"
    and tx: "hex_text ds ([len, hi, lo, typ] @ payload)"
    and ln: "length payload = unat len"
  shows "feed r (0x3A # ds) =
    (replicate 9 IHEX_MESSAGE_CONTINUE @ fst (payload_run (header_state r len hi lo typ) payload),
     snd (payload_run (header_state r len hi lo typ) payload))"
proof -
  define rh where "rh = header_state r len hi lo typ"
  from tx obtain dh dp where d: "ds = dh @ dp" "hex_text dh [len, hi, lo, typ]"
    "hex_text dp payload"
    by (rule hex_text_append)
  have head: "feed r (0x3A # dh) = (replicate 9 IHEX_MESSAGE_CONTINUE, rh)"
    unfolding rh_def by (rule feed_header [OF st d(2)])
  have len255: "length payload \<le> 255"
    using unsigned_less [of len, where ?'a = nat] ln by simp
  have body: "feed rh dp = payload_run rh payload"
  proof (cases "payload = []")
    case True
    with d(3) show ?thesis by (simp add: hex_text_Nil)
  next
    case False
    then have pos: "len > 0" using ln by (auto simp: word_greater_zero_iff)
    have "(ucast len :: 16 word) = of_nat (unat len)" by simp
    then have "(ucast len * 2 :: 16 word) = of_nat (2 * length payload)"
      by (simp add: ln)
    with pos show ?thesis
      by (intro feed_payload d(3) len255) (simp_all add: rh_def header_state_simps)
  qed
  have "feed r (0x3A # ds) = feed r ((0x3A # dh) @ dp)"
    by (simp add: d(1))
  also have "\<dots> = (replicate 9 IHEX_MESSAGE_CONTINUE @ fst (payload_run rh payload),
      snd (payload_run rh payload))"
    unfolding feed_append head snd_conv fst_conv body by simp
  finally show ?thesis by (simp add: rh_def)
qed

lemma payload_end_state:
  assumes "length payload = unat len"
  shows "state (lexer (snd (payload_run (header_state r len hi lo typ) payload)))
           = IHEX_LEXER_STATE_WAIT_CHECK_SUM
       \<and> num_expected_characters (lexer (snd (payload_run (header_state r len hi lo typ) payload)))
           = 2"
proof (cases "payload = []")
  case True
  then have "len = 0" using assms by (simp add: unsigned_eq_0_iff)
  with True show ?thesis by (simp add: header_state_simps)
next
  case False
  then show ?thesis by (rule payload_run_state)
qed

lemma feed_record:
  assumes st: "state (lexer r) = IHEX_LEXER_STATE_WAIT_COLON"
    and tx: "hex_text ds ([len, hi, lo, typ] @ payload @ [ck])"
    and ln: "length payload = unat len"
  shows "feed r (0x3A # ds) =
    (replicate 9 IHEX_MESSAGE_CONTINUE
       @ fst (payload_run (header_state r len hi lo typ) payload)
       @ [IHEX_MESSAGE_CONTINUE, final_message typ (len + hi + lo + typ + sum_list payload) ck],
     record_end (snd (payload_run (header_state r len hi lo typ) payload)) ck)"
proof -
  define rp where "rp = snd (payload_run (header_state r len hi lo typ) payload)"
  from tx have "hex_text ds (([len, hi, lo, typ] @ payload) @ [ck])" by simp
  then obtain db dc where d: "ds = db @ dc" "hex_text db ([len, hi, lo, typ] @ payload)"
    "hex_text dc [ck]"
    by (rule hex_text_append)
  from d(3) obtain c1 c0 where c: "dc = [c1, c0]" "is_hex_digit c1" "is_hex_digit c0"
    "ck = hex_pair c1 c0"
    by (auto elim!: hex_text_Cons simp: hex_text_Nil)
  note body = feed_upto_payload [OF st d(2) ln, folded rp_def]
  have after: "state (lexer rp) = IHEX_LEXER_STATE_WAIT_CHECK_SUM"
    "num_expected_characters (lexer rp) = 2"
    using payload_end_state [OF ln] by (simp_all add: rp_def)
  have rt: "rectyp (record_data (lexer rp)) = typ"
    by (simp add: rp_def payload_run_record_data header_state_simps)
  have cs: "calc_chksum (lexer rp) = len + hi + lo + typ + sum_list payload"
    by (simp add: rp_def payload_run_chksum header_state_simps)
  have tail: "feed rp dc = ([IHEX_MESSAGE_CONTINUE,
      final_message typ (len + hi + lo + typ + sum_list payload) ck], record_end rp ck)"
    unfolding c(1) checksum_field [OF after c(2,3)]
    by (simp add: rt cs final_message_def record_end_def c(4))
  have "feed r (0x3A # ds) = feed r ((0x3A # db) @ dc)"
    by (simp add: d(1))
  also have "\<dots> = (replicate 9 IHEX_MESSAGE_CONTINUE
       @ fst (payload_run (header_state r len hi lo typ) payload)
       @ [IHEX_MESSAGE_CONTINUE, final_message typ (len + hi + lo + typ + sum_list payload) ck],
     record_end rp ck)"
    unfolding feed_append body snd_conv fst_conv tail by simp
  finally show ?thesis by (simp add: rp_def)
qed

lemma feed_record_facts:
  assumes "state (lexer r) = IHEX_LEXER_STATE_WAIT_COLON"
    and "hex_text ds ([len, hi, lo, typ] @ payload @ [ck])"
    and "length payload = unat len"
  shows "last (fst (feed r (0x3A # ds))) =
           final_message typ (len + hi + lo + typ + sum_list payload) ck"
    and "state (lexer (snd (feed r (0x3A # ds)))) = IHEX_LEXER_STATE_WAIT_COLON"
    and "funcData (snd (feed r (0x3A # ds))) = funcData r"
    and "typ \<noteq> 2 \<Longrightarrow> typ \<noteq> 4 \<Longrightarrow>
           ext_offset (lexer (snd (feed r (0x3A # ds)))) = ext_offset (lexer r)"
    and "typ \<noteq> 0 \<Longrightarrow> calls (snd (feed r (0x3A # ds))) = calls r"
    and "typ = 2 \<Longrightarrow> payload = [s1, s0] \<Longrightarrow>
           ext_offset (lexer (snd (feed r (0x3A # ds)))) =
             push_bit 4 (ucast (word_cat s1 s0 :: 16 word))"
    and "typ = 4 \<Longrightarrow> payload = [s1, s0] \<Longrightarrow>
           ext_offset (lexer (snd (feed r (0x3A # ds)))) =
             push_bit 16 (ucast (word_cat s1 s0 :: 16 word))"
  unfolding feed_record [OF assms]
  by (simp_all add: record_end_simps payload_run_funcData payload_run_ext
      payload_run_calls_other payload_run_segment payload_run_linear header_state_simps
      del: payload_run.simps)

lemma data_calls_map:
  "data_calls base k bs =
     map (\<lambda>i. (base + ucast (k + of_nat i), bs ! i)) [0..<length bs]"
proof (induction bs arbitrary: k)
  case Nil
  then show ?case by simp
next
  case (Cons b bs)
  have "[0..<length (b # bs)] = 0 # map Suc [0..<length bs]"
    by (simp add: upt_conv_Cons map_Suc_upt del: upt_Suc)
  then show ?case
    by (simp add: Cons.IH comp_def add.assoc del: upt_Suc)
qed

lemma ucast_of_nat_16_32:
  assumes "i < 65536"
  shows "(ucast (of_nat i :: 16 word) :: 32 word) = of_nat i"
proof -
  have "unat (ucast (of_nat i :: 16 word) :: 32 word) = unat (of_nat i :: 32 word)"
    using assms by (simp add: unsigned_ucast_eq unat_of_nat take_bit_nat_eq_self)
  then show ?thesis by (simp only: word_unat_eq_iff)
qed

lemma feed_record_calls:
  assumes "state (lexer r) = IHEX_LEXER_STATE_WAIT_COLON"
    and "hex_text ds ([len, hi, lo, 0] @ payload @ [ck])"
    and "length payload = unat len"
  shows "calls (snd (feed r (0x3A # ds))) =
    calls r @ (if funcData r = None then []
       else map (\<lambda>i. (ext_offset (lexer r) + ucast (word_cat hi lo :: 16 word) + of_nat i,
                       payload ! i)) [0..<unat len])"
proof -
  have m: "data_calls base 0 payload = map (\<lambda>i. (base + of_nat i, payload ! i)) [0..<unat len]"
    for base
  proof -
    have "i < length payload \<Longrightarrow> (ucast (of_nat i :: 16 word) :: 32 word) = of_nat i" for i
      using unsigned_less [of len, where ?'a = nat] assms(3)
      by (intro ucast_of_nat_16_32) simp
    then show ?thesis
      by (simp add: data_calls_map assms(3) [symmetric])
  qed
  show ?thesis
    unfolding feed_record [OF assms]
    by (simp add: record_end_def payload_run_calls_data header_state_simps
        payload_run_funcData m)
qed

lemma feed_two_lines:
  "snd (feed r (xs @ ys)) = snd (feed (snd (feed r xs)) ys)"
  "ys \<noteq> [] \<Longrightarrow> last (fst (feed r (xs @ ys))) = last (fst (feed (snd (feed r xs)) ys))"
proof -
  show "snd (feed r (xs @ ys)) = snd (feed (snd (feed r xs)) ys)"
    by (simp add: feed_append)
  have "length (fst (feed q zs)) = length zs" for q zs
    by (induction zs arbitrary: q) (simp_all add: split_def Let_def)
  then have "ys \<noteq> [] \<Longrightarrow> fst (feed (snd (feed r xs)) ys) \<noteq> []"
    by (metis length_0_conv)
  then show "ys \<noteq> [] \<Longrightarrow> last (fst (feed r (xs @ ys))) = last (fst (feed (snd (feed r xs)) ys))"
    by (simp add: feed_append)
qed

lemma feed_data_records:
  assumes "state (lexer r) = IHEX_LEXER_STATE_WAIT_COLON"
    and "funcData r = Some f"
    and "list_all data_record_ok rs"
  shows "calls (snd (feed r (record_lines rs))) = calls r @ record_calls (ext_offset (lexer r)) rs
       \<and> ext_offset (lexer (snd (feed r (record_lines rs)))) = ext_offset (lexer r)"
  using assms
proof (induction rs arbitrary: r)
  case Nil
  show ?case by simp
next
  case (Cons x rs)
  obtain ds len hi lo payload ck where x: "x = (ds, len, hi, lo, payload, ck)"
    by (cases x) auto
  have ok: "hex_text ds ([len, hi, lo, 0] @ payload @ [ck])" "length payload = unat len"
    and rest: "list_all data_record_ok rs"
    using Cons.prems(3) by (simp_all add: x)
  note one = feed_record_facts [OF Cons.prems(1) ok]
  have c1: "calls (snd (feed r (0x3A # ds))) =
      calls r @ map (\<lambda>i. (ext_offset (lexer r) + ucast (word_cat hi lo :: 16 word) + of_nat i,
                       payload ! i)) [0..<unat len]"
    using feed_record_calls [OF Cons.prems(1) ok] Cons.prems(2) by (simp del: feed.simps)
  have e1: "ext_offset (lexer (snd (feed r (0x3A # ds)))) = ext_offset (lexer r)"
    by (rule one(4)) simp_all
  have f1: "funcData (snd (feed r (0x3A # ds))) = Some f"
    using one(3) Cons.prems(2) by (simp del: feed.simps)
  note ih = Cons.IH [OF one(2) f1 rest]
  show ?case
    unfolding x record_lines.simps feed_two_lines(1)
    using ih by (simp add: c1 e1 del: feed.simps)
qed

section \<open>A reader without callback\<close>

lemma token_null_callback:
  "fst (ihex_LexerTokenStream \<lparr>lexer = lx, funcData = None, calls = c1\<rparr> t v)
     = fst (ihex_LexerTokenStream \<lparr>lexer = lx, funcData = Some always_continue, calls = c2\<rparr> t v)
   \<and> snd (ihex_LexerTokenStream \<lparr>lexer = lx, funcData = None, calls = c1\<rparr> t v)
     = \<lparr>lexer = lexer (snd (ihex_LexerTokenStream
                \<lparr>lexer = lx, funcData = Some always_continue, calls = c2\<rparr> t v)),
        funcData = None, calls = c1\<rparr>
   \<and> funcData (snd (ihex_LexerTokenStream
                \<lparr>lexer = lx, funcData = Some always_continue, calls = c2\<rparr> t v))
     = Some always_continue"
  by (cases t) (simp_all add: ihex_LexerTokenStream_def Let_def always_continue_def)

lemma token_null_rewrite:
  "ihex_LexerTokenStream \<lparr>lexer = lx, funcData = None, calls = c1\<rparr> t v =
     (fst (ihex_LexerTokenStream \<lparr>lexer = lx, funcData = Some always_continue, calls = c2\<rparr> t v),
      \<lparr>lexer = lexer (snd (ihex_LexerTokenStream
                \<lparr>lexer = lx, funcData = Some always_continue, calls = c2\<rparr> t v)),
        funcData = None, calls = c1\<rparr>)"
  using token_null_callback [of lx c1 t v c2] by (simp add: prod_eq_iff)

lemma lexer_null_callback:
  "fst (ihex_Lexer \<lparr>lexer = lx, funcData = None, calls = c1\<rparr> d)
     = fst (ihex_Lexer \<lparr>lexer = lx, funcData = Some always_continue, calls = c2\<rparr> d)
   \<and> lexer (snd (ihex_Lexer \<lparr>lexer = lx, funcData = None, calls = c1\<rparr> d))
     = lexer (snd (ihex_Lexer \<lparr>lexer = lx, funcData = Some always_continue, calls = c2\<rparr> d))
   \<and> funcData (snd (ihex_Lexer \<lparr>lexer = lx, funcData = None, calls = c1\<rparr> d)) = None
   \<and> calls (snd (ihex_Lexer \<lparr>lexer = lx, funcData = None, calls = c1\<rparr> d)) = c1
   \<and> funcData (snd (ihex_Lexer \<lparr>lexer = lx, funcData = Some always_continue, calls = c2\<rparr> d))
     = Some always_continue"
proof (cases "state lx")
  case IHEX_LEXER_STATE_WAIT_COLON
  then show ?thesis
    by (simp add: ihex_Lexer_def Let_def split_def ihex_SetNextState_def
        token_null_rewrite [where ?c2.0 = c2] token_null_callback)
next
  case IHEX_LEXER_STATE_WAIT_BYTE_COUNT
  then show ?thesis
    by (simp add: ihex_Lexer_def Let_def split_def ihex_SetNextState_def
        token_null_rewrite [where ?c2.0 = c2] token_null_callback)
next
  case IHEX_LEXER_STATE_WAIT_ADDRESS
  then show ?thesis
    by (simp add: ihex_Lexer_def Let_def split_def ihex_SetNextState_def
        token_null_rewrite [where ?c2.0 = c2] token_null_callback)
next
  case IHEX_LEXER_STATE_WAIT_TYPE
  then show ?thesis
    by (simp add: ihex_Lexer_def Let_def split_def ihex_SetNextState_def
        token_null_rewrite [where ?c2.0 = c2] token_null_callback)
next
  case IHEX_LEXER_STATE_WAIT_DATA
  then show ?thesis
    by (simp add: ihex_Lexer_def Let_def split_def ihex_SetNextState_def
        token_null_rewrite [where ?c2.0 = c2] token_null_callback)
next
  case IHEX_LEXER_STATE_WAIT_CHECK_SUM
  then show ?thesis
    by (simp add: ihex_Lexer_def Let_def split_def ihex_SetNextState_def
        token_null_rewrite [where ?c2.0 = c2] token_null_callback)
qed

lemma put_null_callback:
  obtains m lx' c2' where
    "ihex_Put \<lparr>lexer = lx, funcData = None, calls = c1\<rparr> d
       = (m, \<lparr>lexer = lx', funcData = None, calls = c1\<rparr>)"
    "ihex_Put \<lparr>lexer = lx, funcData = Some always_continue, calls = c2\<rparr> d
       = (m, \<lparr>lexer = lx', funcData = Some always_continue, calls = c2'\<rparr>)"
proof -
  let ?r1 = "\<lparr>lexer = lx, funcData = None, calls = c1\<rparr>"
  let ?r2 = "\<lparr>lexer = lx, funcData = Some always_continue, calls = c2\<rparr>"
  have "fst (ihex_Put ?r1 d) = fst (ihex_Put ?r2 d)
      \<and> lexer (snd (ihex_Put ?r1 d)) = lexer (snd (ihex_Put ?r2 d))
      \<and> funcData (snd (ihex_Put ?r1 d)) = None \<and> calls (snd (ihex_Put ?r1 d)) = c1
      \<and> funcData (snd (ihex_Put ?r2 d)) = Some always_continue"
    using lexer_null_callback [of lx c1 d c2] by (simp add: ihex_Put_def)
  then have "ihex_Put ?r1 d = (fst (ihex_Put ?r2 d),
        \<lparr>lexer = lexer (snd (ihex_Put ?r2 d)), funcData = None, calls = c1\<rparr>)"
    and "ihex_Put ?r2 d = (fst (ihex_Put ?r2 d),
        \<lparr>lexer = lexer (snd (ihex_Put ?r2 d)), funcData = Some always_continue,
          calls = calls (snd (ihex_Put ?r2 d))\<rparr>)"
    by (simp_all add: prod_eq_iff)
  then show thesis by (rule that)
qed

lemma feed_null_callback:
  "fst (feed \<lparr>lexer = lx, funcData = None, calls = c1\<rparr> bs)
     = fst (feed \<lparr>lexer = lx, funcData = Some always_continue, calls = c2\<rparr> bs)
   \<and> lexer (snd (feed \<lparr>lexer = lx, funcData = None, calls = c1\<rparr> bs))
     = lexer (snd (feed \<lparr>lexer = lx, funcData = Some always_continue, calls = c2\<rparr> bs))
   \<and> calls (snd (feed \<lparr>lexer = lx, funcData = None, calls = c1\<rparr> bs)) = c1"
proof (induction bs arbitrary: lx c2)
  case Nil
  show ?case by simp
next
  case (Cons d bs)
  obtain m lx' c2' where
    "ihex_Put \<lparr>lexer = lx, funcData = None, calls = c1\<rparr> d
       = (m, \<lparr>lexer = lx', funcData = None, calls = c1\<rparr>)"
    "ihex_Put \<lparr>lexer = lx, funcData = Some always_continue, calls = c2\<rparr> d
       = (m, \<lparr>lexer = lx', funcData = Some always_continue, calls = c2'\<rparr>)"
    by (rule put_null_callback)
  with Cons.IH [of lx' c2'] show ?case
    by (simp add: split_def Let_def)
qed

section \<open>Encoded lines and single-character changes\<close>

lemma hex_char_digit:
  assumes "v < 16"
  shows "is_hex_digit (hex_char v)" and "digit_value (hex_char v) = unat v"
  using assms
  by (auto simp: hex_char_def is_hex_digit_def digit_value_def word_le_nat_alt
      word_less_nat_alt unat_word_ariths unat_sub)

lemma nibbles_of_byte:
  fixes b :: "8 word"
  shows "drop_bit 4 b < 16" and "b AND 0x0F < 16"
    and "16 * unat (drop_bit 4 b) + unat (b AND 0x0F) = unat b"
proof -
  have d: "unat (drop_bit 4 b) = unat b div 16"
    by (simp add: drop_bit_eq_div unat_div)
  have "b AND 0x0F = take_bit 4 b"
    by (simp add: take_bit_eq_mask mask_eq_exp_minus_1)
  then have a: "unat (b AND 0x0F) = unat b mod 16"
    by (simp add: unsigned_take_bit_eq take_bit_eq_mod unat_mod)
  have "unat b < 256" using unsigned_less [of b, where ?'a = nat] by simp
  then show "drop_bit 4 b < 16" by (simp add: word_less_nat_alt d)
  show "b AND 0x0F < 16" by (simp add: word_less_nat_alt a)
  show "16 * unat (drop_bit 4 b) + unat (b AND 0x0F) = unat b"
    by (simp add: d a)
qed

lemma hex_text_encode: "hex_text (concat (map hex_byte bs)) bs"
proof (induction bs)
  case Nil
  show ?case by simp
next
  case (Cons b bs)
  have "hex_pair (hex_char (drop_bit 4 b)) (hex_char (b AND 0x0F)) = b"
    by (simp add: hex_pair_def hex_char_digit nibbles_of_byte)
  with Cons show ?case
    by (simp add: hex_byte_def hex_char_digit nibbles_of_byte)
qed

lemma encode_record_text:
  "hex_text (tl (encode_record len hi lo typ payload))
     ([len, hi, lo, typ] @ payload @ [- (len + hi + lo + typ + sum_list payload)])"
  "encode_record len hi lo typ payload = 0x3A # tl (encode_record len hi lo typ payload)"
proof -
  have "record_checksum ([len, hi, lo, typ] @ payload) = - (len + hi + lo + typ + sum_list payload)"
    by (simp add: record_checksum_def minus_eq_not_plus_1 add.assoc)
  then show "hex_text (tl (encode_record len hi lo typ payload))
     ([len, hi, lo, typ] @ payload @ [- (len + hi + lo + typ + sum_list payload)])"
    unfolding encode_record_def list.sel
    by (simp only: hex_text_encode)
  show "encode_record len hi lo typ payload = 0x3A # tl (encode_record len hi lo typ payload)"
    by (simp add: encode_record_def)
qed

lemma hex_text_digits:
  "hex_text ds bs \<Longrightarrow> (\<forall>d \<in> set ds. is_hex_digit d) \<and> length ds = 2 * length bs"
  by (induction ds bs rule: hex_text.induct) auto

lemma token_keeps_position:
  "state (lexer (snd (ihex_LexerTokenStream r t v))) = state (lexer r)"
  "num_expected_characters (lexer (snd (ihex_LexerTokenStream r t v)))
     = num_expected_characters (lexer r)"
  by (cases t; simp add: ihex_LexerTokenStream_def Let_def split_def split: option.split)+

lemma digit_stays:
  assumes "state (lexer r) \<noteq> IHEX_LEXER_STATE_WAIT_COLON"
    and "num_expected_characters (lexer r) - 1 \<noteq> 0"
    and "is_hex_digit d"
  shows "state (lexer (snd (ihex_Put r d))) = state (lexer r)
       \<and> num_expected_characters (lexer (snd (ihex_Put r d)))
           = num_expected_characters (lexer r) - 1"
  using assms
  by (cases "state (lexer r)")
    (simp_all add: Put_hex ihex_Lexer_def CharToValue_nonneg Let_def split_def
      token_keeps_position)

lemma digits_stay:
  assumes "\<forall>d \<in> set xs. is_hex_digit d"
    and "state (lexer r) \<noteq> IHEX_LEXER_STATE_WAIT_COLON"
    and "num_expected_characters (lexer r) = of_nat n"
    and "length xs < n" and "n < 65536"
  shows "state (lexer (snd (feed r xs))) = state (lexer r)"
  using assms
proof (induction xs arbitrary: r n)
  case Nil
  show ?case by simp
next
  case (Cons d xs)
  obtain m where n: "n = Suc m" using Cons.prems(4) by (cases n) auto
  have "m \<noteq> 0" "m < 65536" using Cons.prems(4,5) n by auto
  then have "unat (of_nat m :: 16 word) \<noteq> 0" by (simp add: unat_of_nat16)
  then have nz: "num_expected_characters (lexer r) - 1 \<noteq> 0"
    unfolding Cons.prems(3) n by (metis add_diff_cancel_left' of_nat_Suc unat_0 add.commute)
  have d: "is_hex_digit d" using Cons.prems(1) by simp
  note step = digit_stays [OF Cons.prems(2) nz d]
  have "state (lexer (snd (feed (snd (ihex_Put r d)) xs))) = state (lexer (snd (ihex_Put r d)))"
  proof (rule Cons.IH [where n = m])
    show "\<forall>d\<in>set xs. is_hex_digit d" using Cons.prems(1) by simp
    show "state (lexer (snd (ihex_Put r d))) \<noteq> IHEX_LEXER_STATE_WAIT_COLON"
      using step Cons.prems(2) by simp
    show "num_expected_characters (lexer (snd (ihex_Put r d))) = of_nat m"
      using step by (simp add: Cons.prems(3) n)
    show "length xs < m" using Cons.prems(4) n by simp
    show "m < 65536" by fact
  qed
  with step show ?case by (simp add: split_def Let_def)
qed

lemma inside_field:
  assumes "\<forall>d \<in> set xs. is_hex_digit d"
    and "state (lexer r) \<noteq> IHEX_LEXER_STATE_WAIT_COLON"
    and "num_expected_characters (lexer r) = of_nat (length xs)"
    and "length xs < 65536"
  shows "inside r xs"
  unfolding inside_def
proof (intro allI impI)
  fix k assume k: "k < length xs"
  have "state (lexer (snd (feed r (take k xs)))) = state (lexer r)"
    by (rule digits_stay [where n = "length xs"])
      (use assms k in \<open>auto dest: in_set_takeD\<close>)
  then show "state (lexer (snd (feed r (take k xs)))) \<noteq> IHEX_LEXER_STATE_WAIT_COLON"
    using assms(2) by simp
qed

lemma inside_append:
  assumes "inside r xs" and "inside (snd (feed r xs)) ys"
  shows "inside r (xs @ ys)"
  unfolding inside_def
proof (intro allI impI)
  fix k assume k: "k < length (xs @ ys)"
  show "state (lexer (snd (feed r (take k (xs @ ys))))) \<noteq> IHEX_LEXER_STATE_WAIT_COLON"
  proof (cases "k < length xs")
    case True
    then show ?thesis using assms(1) by (simp add: inside_def)
  next
    case False
    then have "take k (xs @ ys) = xs @ take (k - length xs) ys" by simp
    moreover have "k - length xs < length ys" using k False by simp
    ultimately show ?thesis
      using assms(2) by (simp add: inside_def feed_append del: take_append)
  qed
qed

lemma inside_record:
  assumes st: "state (lexer r) = IHEX_LEXER_STATE_WAIT_COLON"
    and tx: "hex_text ds ([len, hi, lo, typ] @ payload @ [ck])"
    and ln: "length payload = unat len"
  shows "inside (snd (ihex_Put r 0x3A)) ds"
proof -
  from tx obtain dh dr where d1: "ds = dh @ dr" "hex_text dh [len, hi, lo, typ]"
    "hex_text dr (payload @ [ck])"
    by (rule hex_text_append)
  from d1(3) obtain dp dc where d2: "dr = dp @ dc" "hex_text dp payload" "hex_text dc [ck]"
    by (rule hex_text_append)
  from d1(2) obtain l1 l0 a3 a2 a1 a0 t1 t0 where
    dh: "dh = [l1, l0] @ [a3, a2, a1, a0] @ [t1, t0]"
    and hex: "is_hex_digit l1" "is_hex_digit l0" "is_hex_digit a3" "is_hex_digit a2"
      "is_hex_digit a1" "is_hex_digit a0" "is_hex_digit t1" "is_hex_digit t0"
    by (auto elim!: hex_text_Cons simp: hex_text_Nil)
  define r1 where "r1 = snd (ihex_Put r 0x3A)"
  define r2 where "r2 = snd (feed r1 [l1, l0])"
  define r3 where "r3 = snd (feed r2 [a3, a2, a1, a0])"
  define r4 where "r4 = snd (feed r3 [t1, t0])"
  define r5 where "r5 = snd (feed r4 dp)"
  have s1: "ihex_Put r 0x3A = (IHEX_MESSAGE_CONTINUE, r1)"
    and e1: "state (lexer r1) = IHEX_LEXER_STATE_WAIT_BYTE_COUNT"
       "num_expected_characters (lexer r1) = 2"
    unfolding r1_def by (simp_all add: colon_step [OF st])
  have e2: "state (lexer r2) = IHEX_LEXER_STATE_WAIT_ADDRESS"
       "num_expected_characters (lexer r2) = 4"
    unfolding r2_def by (simp_all add: reclen_field [OF e1 hex(1,2)] del: feed.simps)
  have e3: "state (lexer r3) = IHEX_LEXER_STATE_WAIT_TYPE"
       "num_expected_characters (lexer r3) = 2"
    unfolding r3_def by (simp_all add: address_field [OF e2 hex(3,4,5,6)] del: feed.simps)
  have r4: "r4 = header_state r len hi lo typ"
  proof -
    have "feed r (0x3A # dh) = (fst (feed r (0x3A # dh)), r4)"
      unfolding dh r4_def r3_def r2_def r1_def feed_Cons [of r] feed_append by simp
    then show ?thesis by (simp add: feed_header [OF st d1(2)] del: feed.simps)
  qed
  have r5: "r5 = snd (payload_run (header_state r len hi lo typ) payload)"
  proof -
    have "hex_text (dh @ dp) ([len, hi, lo, typ] @ payload)"
      using d1(2) d2(2) unfolding dh by (auto elim!: hex_text_Cons simp: hex_text_Nil)
    from feed_upto_payload [OF st this ln]
    have "snd (feed r ((0x3A # dh) @ dp))
        = snd (payload_run (header_state r len hi lo typ) payload)"
      by (simp del: feed.simps)
    then show ?thesis
      unfolding feed_append r5_def r4 by (simp add: feed_header [OF st d1(2)] del: feed.simps)
  qed
  have i1: "inside r1 [l1, l0]"
    by (rule inside_field) (simp_all add: e1 hex)
  have i2: "inside r2 [a3, a2, a1, a0]"
    by (rule inside_field) (simp_all add: e2 hex)
  have i3: "inside r3 [t1, t0]"
    by (rule inside_field) (simp_all add: e3 hex)
  have i4: "inside r4 dp"
  proof (cases "payload = []")
    case True
    with d2(2) show ?thesis by (simp add: hex_text_Nil inside_def)
  next
    case False
    then have pos: "len > 0" using ln by (auto simp: word_greater_zero_iff)
    have "(ucast len :: 16 word) = of_nat (unat len)" by simp
    then have n: "(ucast len * 2 :: 16 word) = of_nat (length dp)"
      using hex_text_digits [OF d2(2)] by (simp add: ln)
    have "length payload < 256" using unsigned_less [of len, where ?'a = nat] ln by simp
    then have "length dp < 65536" using hex_text_digits [OF d2(2)] by simp
    with pos n show ?thesis
      unfolding r4
      by (intro inside_field) (simp_all add: header_state_simps hex_text_digits [OF d2(2)])
  qed
  have i5: "inside r5 dc"
    unfolding r5
    by (rule inside_field)
      (use hex_text_digits [OF d2(3)] payload_end_state [OF ln] in simp_all)
  have "inside r1 ([l1, l0] @ [a3, a2, a1, a0] @ [t1, t0] @ dp @ dc)"
    by (intro inside_append i1)
      (simp_all only: feed_append snd_conv r2_def [symmetric] r3_def [symmetric]
        r4_def [symmetric] r5_def [symmetric] i2 i3 i4 i5)
  then show ?thesis
    by (simp add: r1_def d1(1) d2(1) dh)
qed

lemma feed_nth:
  "i < length xs \<Longrightarrow>
     fst (feed r xs) ! i = fst (ihex_Put (snd (feed r (take i xs))) (xs ! i))"
proof (induction xs arbitrary: r i)
  case Nil
  then show ?case by simp
next
  case (Cons x xs)
  then show ?case by (cases i) (simp_all add: split_def Let_def)
qed

lemma colon_refused:
  assumes "state (lexer r) \<noteq> IHEX_LEXER_STATE_WAIT_COLON"
  shows "ihex_Put r 0x3A = (IHEX_MESSAGE_INVALID_INPUT_DATA,
    r\<lparr>lexer := (lexer r)\<lparr>num_expected_characters :=
         num_expected_characters (lexer r) - 1\<rparr>\<rparr>)"
  using assms
  by (cases "state (lexer r)")
    (simp_all add: ihex_Put_def ihex_IsValidData_def ihex_Lexer_def ihex_CharToValue_def Let_def)

lemma other_refused:
  assumes "\<not> is_hex_digit c" and "c \<noteq> 0x0A" and "c \<noteq> 0x0D" and "c \<noteq> 0x3A"
  shows "ihex_Put r c = (IHEX_MESSAGE_INVALID_INPUT_DATA, r)"
  using assms by (simp add: ihex_Put_def ihex_IsValidData_def is_hex_digit_def)

lemma corrupted_by_non_digit:
  assumes st: "state (lexer r) = IHEX_LEXER_STATE_WAIT_COLON"
    and tx: "hex_text ds ([len, hi, lo, typ] @ payload @ [ck])"
    and ln: "length payload = unat len"
    and i: "i < length (0x3A # ds)"
    and c: "\<not> is_hex_digit c" "c \<noteq> 0x0A" "c \<noteq> 0x0D" "c \<noteq> (0x3A # ds) ! i"
  shows "fst (feed r ((0x3A # ds)[i := c])) ! i = IHEX_MESSAGE_INVALID_INPUT_DATA"
proof -
  let ?line = "0x3A # ds"
  have "fst (feed r (?line[i := c])) ! i = fst (ihex_Put (snd (feed r (take i ?line))) c)"
    using i by (simp add: feed_nth del: feed.simps list_update.simps take.simps)
  also have "\<dots> = IHEX_MESSAGE_INVALID_INPUT_DATA"
  proof (cases "c = 0x3A")
    case False
    with c show ?thesis by (simp add: other_refused)
  next
    case True
    with c(4) obtain j where j: "i = Suc j" by (cases i) auto
    with i have "j < length ds" by simp
    with inside_record [OF st tx ln]
    have "state (lexer (snd (feed (snd (ihex_Put r 0x3A)) (take j ds))))
        \<noteq> IHEX_LEXER_STATE_WAIT_COLON"
      by (simp add: inside_def)
    then have "state (lexer (snd (feed r (take i ?line)))) \<noteq> IHEX_LEXER_STATE_WAIT_COLON"
      by (simp add: j split_def Let_def)
    then show ?thesis unfolding True by (simp add: colon_refused)
  qed
  finally show ?thesis .
qed

lemma record_bytes_shape:
  assumes "length bs = 5 + n"
  obtains len hi lo ty payload ck where
    "bs = [len, hi, lo, ty] @ payload @ [ck]" "length payload = n"
proof -
  from assms have "length bs = Suc (Suc (Suc (Suc (Suc n))))" by simp
  then obtain len hi lo ty rest where a: "bs = len # hi # lo # ty # rest" "length rest = Suc n"
    by (auto simp: length_Suc_conv)
  then have "rest \<noteq> []" by auto
  then obtain payload ck where b: "rest = payload @ [ck]"
    by (metis rev_exhaust)
  show thesis
    by (rule that [of len hi lo ty payload ck]) (use a b in simp_all)
qed

lemma record_verdict:
  assumes st: "state (lexer r) = IHEX_LEXER_STATE_WAIT_COLON"
    and tx: "hex_text ds bs"
    and ln: "length bs = 5 + unat (hd bs)"
  shows "last (fst (feed r (0x3A # ds))) =
    (if bs ! 3 = 1 then IHEX_MESSAGE_END
     else if sum_list bs = 0 then IHEX_MESSAGE_CONTINUE
     else IHEX_MESSAGE_CHECK_SUM_ERROR)"
proof -
  from ln obtain len hi lo ty payload ck where
    bs: "bs = [len, hi, lo, ty] @ payload @ [ck]" and p: "length payload = unat (hd bs)"
    by (rule record_bytes_shape)
  have l: "length payload = unat len" using p by (simp add: bs)
  have "- (len + hi + lo + ty + sum_list payload) = ck \<longleftrightarrow> sum_list bs = 0"
  proof -
    have "sum_list bs = (len + hi + lo + ty + sum_list payload) + ck"
      by (simp add: bs add.assoc)
    then show ?thesis
      by (simp only: neg_eq_iff_add_eq_0)
  qed
  then show ?thesis
    unfolding feed_record_facts(1) [OF st tx [unfolded bs] l] final_message_def
    by (simp add: bs)
qed

lemma unat_of_nat8: "n < 256 \<Longrightarrow> unat (of_nat n :: 8 word) = n"
  by (simp add: unat_of_nat)

lemma nibble_pair_inj:
  fixes a b a' b' :: nat
  assumes "b < 16" and "b' < 16" and "16 * a + b = 16 * a' + b'"
  shows "a = a' \<and> b = b'"
proof -
  have "(16 * a + b) div 16 = a" "(16 * a + b) mod 16 = b"
    using assms(1) by simp_all
  moreover have "(16 * a' + b') div 16 = a'" "(16 * a' + b') mod 16 = b'"
    using assms(2) by simp_all
  ultimately show ?thesis using assms(3) by metis
qed

lemma hex_pair_inj:
  assumes "is_hex_digit h" "is_hex_digit l" "is_hex_digit h'" "is_hex_digit l'"
    and "hex_pair h l = hex_pair h' l'"
  shows "digit_value h = digit_value h' \<and> digit_value l = digit_value l'"
proof -
  note b = digit_value_less [OF assms(1)] digit_value_less [OF assms(2)]
    digit_value_less [OF assms(3)] digit_value_less [OF assms(4)]
  have "16 * digit_value h + digit_value l < 256" using b by simp
  then have "unat (hex_pair h l) = 16 * digit_value h + digit_value l"
    unfolding hex_pair_def by (rule unat_of_nat8)
  moreover have "16 * digit_value h' + digit_value l' < 256" using b by simp
  then have "unat (hex_pair h' l') = 16 * digit_value h' + digit_value l'"
    unfolding hex_pair_def by (rule unat_of_nat8)
  ultimately have "16 * digit_value h + digit_value l = 16 * digit_value h' + digit_value l'"
    using assms(5) by simp
  then show ?thesis by (rule nibble_pair_inj [OF b(2) b(4)])
qed

lemma hex_text_nth:
  "hex_text ds bs \<Longrightarrow> k < length bs \<Longrightarrow> bs ! k = hex_pair (ds ! (2 * k)) (ds ! Suc (2 * k))"
proof (induction ds bs arbitrary: k rule: hex_text.induct)
  case (2 h l ds b bs)
  then show ?case by (cases k) simp_all
qed simp_all

lemma hex_text_update:
  assumes "hex_text ds bs" and "j < length ds" and "is_hex_digit c"
    and "digit_value c \<noteq> digit_value (ds ! j)"
  shows "\<exists>b'. b' \<noteq> bs ! (j div 2) \<and> hex_text (ds[j := c]) (bs[j div 2 := b'])"
  using assms
proof (induction ds bs arbitrary: j rule: hex_text.induct)
  case (2 h l ds b bs)
  then have hl: "is_hex_digit h" "is_hex_digit l" "b = hex_pair h l" "hex_text ds bs"
    by simp_all
  consider (zero) "j = 0" | (one) "j = Suc 0" | (more) k where "j = Suc (Suc k)"
    by (metis not0_implies_Suc)
  then show ?case
  proof cases
    case zero
    have "hex_pair c l \<noteq> hex_pair h l"
      using hex_pair_inj [OF "2.prems"(3) hl(2) hl(1) hl(2)] "2.prems"(4) zero by auto
    then show ?thesis
      unfolding zero using hl "2.prems"(3) by (intro exI [of _ "hex_pair c l"]) simp
  next
    case one
    have "hex_pair h c \<noteq> hex_pair h l"
      using hex_pair_inj [OF hl(1) "2.prems"(3) hl(1) hl(2)] "2.prems"(4) one by auto
    then show ?thesis
      unfolding one using hl "2.prems"(3) by (intro exI [of _ "hex_pair h c"]) simp
  next
    case more
    with "2.prems" have "k < length ds" "digit_value c \<noteq> digit_value (ds ! k)" by simp_all
    from "2.IH" [OF hl(4) this(1) "2.prems"(3) this(2)] obtain b' where
      "b' \<noteq> bs ! (k div 2)" "hex_text (ds[k := c]) (bs[k div 2 := b'])" by blast
    then show ?thesis
      unfolding more using hl by (intro exI [of _ b']) simp
  qed
qed simp_all

lemma sum_list_update_word:
  fixes bs :: "8 word list"
  shows "k < length bs \<Longrightarrow> sum_list (bs[k := b]) = sum_list bs - bs ! k + b"
proof (induction bs arbitrary: k)
  case Nil
  then show ?case by simp
next
  case (Cons x xs)
  then show ?case by (cases k) simp_all
qed

lemma data_msgs_benign:
  assumes "f = None \<or> f = Some always_continue"
  shows "data_msgs f base k bs = replicate (2 * length bs) IHEX_MESSAGE_CONTINUE"
  using assms
  by (induction bs arbitrary: k) (auto simp: always_continue_def)

lemma valid_record_all_continue:
  assumes st: "state (lexer r) = IHEX_LEXER_STATE_WAIT_COLON"
    and tx: "hex_text ds ([len, hi, lo, typ] @ payload @ [ck])"
    and ln: "length payload = unat len"
    and ty: "typ \<noteq> 1"
    and ck: "ck = - (len + hi + lo + typ + sum_list payload)"
    and cb: "funcData r = None \<or> funcData r = Some always_continue"
  shows "fst (feed r (0x3A # ds)) = replicate (length (0x3A # ds)) IHEX_MESSAGE_CONTINUE"
proof -
  have p: "fst (payload_run (header_state r len hi lo typ) payload)
      = replicate (2 * length payload) IHEX_MESSAGE_CONTINUE"
  proof (cases "typ = 0")
    case True
    then show ?thesis
      using cb by (simp add: payload_run_msgs_data header_state_simps data_msgs_benign)
  next
    case False
    then show ?thesis
      by (simp add: payload_run_msgs_other header_state_simps)
  qed
  have f: "final_message typ (len + hi + lo + typ + sum_list payload) ck = IHEX_MESSAGE_CONTINUE"
    using ty ck by (simp add: final_message_def)
  have l: "length ds = 10 + 2 * length payload"
    using hex_text_digits [OF tx] by simp
  have "replicate 9 IHEX_MESSAGE_CONTINUE @ replicate (2 * length payload) IHEX_MESSAGE_CONTINUE
        @ [IHEX_MESSAGE_CONTINUE, IHEX_MESSAGE_CONTINUE]
      = replicate (9 + 2 * length payload + 2) IHEX_MESSAGE_CONTINUE"
    by (rule replicate_eqI) auto
  then show ?thesis
    unfolding feed_record [OF st tx ln] p f by (simp add: l)
qed

lemma corrupted_by_digit:
  assumes st: "state (lexer r) = IHEX_LEXER_STATE_WAIT_COLON"
    and tx: "hex_text ds ([len, hi, lo, typ] @ payload @ [ck])"
    and ln: "length payload = unat len"
    and ck: "ck = - (len + hi + lo + typ + sum_list payload)"
    and i: "3 \<le> i" "i < length (0x3A # ds)"
    and c: "is_hex_digit c" "digit_value c \<noteq> digit_value ((0x3A # ds) ! i)"
  shows "last (fst (feed r ((0x3A # ds)[i := c]))) =
    (if hex_pair ((0x3A # ds)[i := c] ! 7) ((0x3A # ds)[i := c] ! 8) = 1
     then IHEX_MESSAGE_END else IHEX_MESSAGE_CHECK_SUM_ERROR)"
proof -
  let ?bs = "[len, hi, lo, typ] @ payload @ [ck]"
  obtain j where j: "i = Suc j" using i(1) by (cases i) auto
  have j2: "2 \<le> j" "j < length ds" "digit_value c \<noteq> digit_value (ds ! j)"
    using i c(2) by (simp_all add: j)
  from hex_text_update [OF tx j2(2) c(1) j2(3)] obtain b' where
    b: "b' \<noteq> ?bs ! (j div 2)" "hex_text (ds[j := c]) (?bs[j div 2 := b'])"
    by blast
  obtain k where k: "j div 2 = Suc k" using j2(1) by (cases "j div 2") auto
  have kl: "j div 2 < length ?bs"
    using hex_text_digits [OF tx] j2(2) by simp
  have zero: "sum_list ?bs = 0"
    by (simp add: ck add.assoc)
  have "sum_list (?bs[j div 2 := b']) = sum_list ?bs - ?bs ! (j div 2) + b'"
    using kl by (rule sum_list_update_word)
  then have nz: "sum_list (?bs[j div 2 := b']) \<noteq> 0"
    using b(1) unfolding zero by simp
  have "hd (?bs[j div 2 := b']) = len"
    unfolding k by simp
  moreover have "length (?bs[j div 2 := b']) = 5 + unat len"
    by (simp add: ln del: list_update.simps)
  ultimately have shape: "length (?bs[j div 2 := b']) = 5 + unat (hd (?bs[j div 2 := b']))"
    by (simp only:)
  have "3 < length (?bs[j div 2 := b'])" by (simp del: list_update.simps)
  from hex_text_nth [OF b(2) this]
  have ty: "?bs[j div 2 := b'] ! 3 = hex_pair (ds[j := c] ! 6) (ds[j := c] ! 7)"
    by (simp del: list_update.simps)
  have line: "(0x3A # ds)[i := c] = 0x3A # ds[j := c]"
    by (simp add: j)
  have "last (fst (feed r (0x3A # ds[j := c]))) =
    (if hex_pair (ds[j := c] ! 6) (ds[j := c] ! 7) = 1
     then IHEX_MESSAGE_END else IHEX_MESSAGE_CHECK_SUM_ERROR)"
    unfolding record_verdict [OF st b(2) shape] ty using nz by simp
  then show ?thesis
    unfolding line by (simp del: feed.simps list_update.simps add: eval_nat_numeral)
qed

section \<open>Claims\<close>

text \<open>
  In the statements below a record line is \<open>0x3A # ds\<close>, where the digits \<open>ds\<close> spell
  \<open>[len, hi, lo, typ] @ payload @ [ck]\<close> and the payload has the declared length; the
  reader is in \<open>IHEX_LEXER_STATE_WAIT_COLON\<close>, as after \<open>ihex_Begin\<close> and after every
  completed record. The status of the call on the last byte fed is the last element of the
  list \<open>feed\<close> returns.
\<close>

text \<open>
  C1. Fed a type-00 record, a reader with a callback invokes it once per payload byte, in
  order: the record adds \<open>unat len\<close> calls to the log, the \<open>i\<close>-th with the byte
  \<open>payload ! i\<close> and the address extension base + load offset + \<open>i\<close> (in 32 bits), the
  extension base being the one in effect when the record starts (a type-00 record does not
  change it).
\<close>

theorem data_record_callback_addresses:
  assumes "state (lexer r) = IHEX_LEXER_STATE_WAIT_COLON"
    and "funcData r = Some f"
    and "hex_text ds ([len, hi, lo, 0] @ payload @ [ck])"
    and "length payload = unat len"
  shows "calls (snd (feed r (0x3A # ds))) =
           calls r @ map (\<lambda>i. (ext_offset (lexer r) + ucast (word_cat hi lo :: 16 word) + of_nat i,
                               payload ! i)) [0..<unat len]"
  using feed_record_calls [OF assms(1,3,4)] assms(2) by simp

theorem data_record_callback_addresses_witness:
  "calls (snd (feed begun_reader (bytes_of '':0300300002337A1E'')))
     = [(0x30, 0x02), (0x31, 0x33), (0x32, 0x7A)]"
proof -
  have "hex_text (bytes_of ''0300300002337A1E'') ([3, 0, 0x30, 0] @ [0x02, 0x33, 0x7A] @ [0x1E])"
    by (simp add: bytes_of_def is_hex_digit_def hex_pair_def digit_value_def)
  from data_record_callback_addresses [OF begun_reader_simps(1,2) this]
  show ?thesis
    by (simp add: bytes_of_def begun_reader_simps upt_conv_Cons word_cat_eq del: feed.simps)
qed

text \<open>
  C2. For a record whose type is not 01, the call on the last checksum digit returns
  Continue when the two's complement (bitwise negation plus 1, in 8 bits) of the sum of
  length, address bytes, type and payload bytes equals the checksum field, and ChecksumError
  when it differs; either way the reader is back in \<open>IHEX_LEXER_STATE_WAIT_COLON\<close>.
\<close>

theorem record_checksum_verdict:
  assumes "state (lexer r) = IHEX_LEXER_STATE_WAIT_COLON"
    and "hex_text ds ([len, hi, lo, typ] @ payload @ [ck])"
    and "length payload = unat len"
    and "typ \<noteq> 1"
  shows "last (fst (feed r (0x3A # ds))) =
           (if NOT (len + hi + lo + typ + sum_list payload) + 1 = ck
            then IHEX_MESSAGE_CONTINUE else IHEX_MESSAGE_CHECK_SUM_ERROR)
         \<and> state (lexer (snd (feed r (0x3A # ds)))) = IHEX_LEXER_STATE_WAIT_COLON"
  using assms(4)
  by (simp add: feed_record_facts(1,2) [OF assms(1-3)] final_message_def minus_eq_not_plus_1
      del: feed.simps)

theorem record_checksum_verdict_witness:
  "last (fst (feed begun_reader (bytes_of '':0300300002337A1E''))) = IHEX_MESSAGE_CONTINUE
   \<and> state (lexer (snd (feed begun_reader (bytes_of '':0300300002337A1E''))))
       = IHEX_LEXER_STATE_WAIT_COLON
   \<and> last (fst (feed begun_reader (bytes_of '':0300300002337A1F''))) = IHEX_MESSAGE_CHECK_SUM_ERROR"
proof -
  have a: "hex_text (bytes_of ''0300300002337A1E'') ([3, 0, 0x30, 0] @ [0x02, 0x33, 0x7A] @ [0x1E])"
    by (simp add: bytes_of_def is_hex_digit_def hex_pair_def digit_value_def)
  have b: "hex_text (bytes_of ''0300300002337A1F'') ([3, 0, 0x30, 0] @ [0x02, 0x33, 0x7A] @ [0x1F])"
    by (simp add: bytes_of_def is_hex_digit_def hex_pair_def digit_value_def)
  from record_checksum_verdict [OF begun_reader_simps(1) a]
    record_checksum_verdict [OF begun_reader_simps(1) b]
  show ?thesis
    by (simp add: bytes_of_def del: feed.simps)
qed

text \<open>
  C3. A \<open>':'\<close> is no hex digit, yet it passes \<open>ihex_IsValidData\<close>; fed while the length
  field is awaited it is answered with InvalidInput, but the counter of expected characters
  has gone from 2 to 1: the reader is not the same after the call. (Lemma \<open>colon_refused\<close>
  gives the same for every digit state; by \<open>other_refused\<close> every other byte that is no
  hex digit, line feed or carriage return is refused with the reader unchanged.)
\<close>

theorem colon_in_length_field_consumes_digit:
  "state (lexer (snd (feed (ihex_Begin blank_reader) [0x3A]))) = IHEX_LEXER_STATE_WAIT_BYTE_COUNT
   \<and> num_expected_characters (lexer (snd (feed (ihex_Begin blank_reader) [0x3A]))) = 2
   \<and> \<not> is_hex_digit 0x3A
   \<and> fst (ihex_Put (snd (feed (ihex_Begin blank_reader) [0x3A])) 0x3A)
       = IHEX_MESSAGE_INVALID_INPUT_DATA
   \<and> num_expected_characters
         (lexer (snd (ihex_Put (snd (feed (ihex_Begin blank_reader) [0x3A])) 0x3A))) = 1"
  by (simp add: colon_step Begin_state is_hex_digit_def)
    (simp add: ihex_Put_def ihex_IsValidData_def ihex_Lexer_def ihex_CharToValue_def Let_def)

text \<open>
  C4 (as amended). The line that encodes length, address, type (not 01) and payload with the
  two's-complement checksum is answered with Continue on every byte, by a reader whose
  callback is absent or always returns Continue. If one character of the line is replaced
  by a character that is neither a hex digit nor a line feed nor a carriage return, the call
  on that character returns InvalidInput. If one hex digit after the length field (address,
  type, payload or checksum) is replaced by a hex digit that spells another nibble, the call
  on the last character returns End when the type digits (characters 7 and 8 of the line)
  now spell 01, and ChecksumError otherwise.
\<close>

theorem encoded_record_round_trip:
  fixes hi lo :: "8 word"
  assumes "state (lexer r) = IHEX_LEXER_STATE_WAIT_COLON"
    and "funcData r = None \<or> funcData r = Some always_continue"
    and "length payload = unat len"
    and "typ \<noteq> 1"
  defines "line \<equiv> encode_record len hi lo typ payload"
  shows "fst (feed r line) = replicate (length line) IHEX_MESSAGE_CONTINUE
    \<and> (\<forall>i c. i < length line \<and> \<not> is_hex_digit c \<and> c \<noteq> 0x0A \<and> c \<noteq> 0x0D \<and> c \<noteq> line ! i
           \<longrightarrow> fst (feed r (line[i := c])) ! i = IHEX_MESSAGE_INVALID_INPUT_DATA)
    \<and> (\<forall>i c. 3 \<le> i \<and> i < length line \<and> is_hex_digit c
             \<and> digit_value c \<noteq> digit_value (line ! i)
           \<longrightarrow> last (fst (feed r (line[i := c]))) =
                 (if hex_pair (line[i := c] ! 7) (line[i := c] ! 8) = 1
                  then IHEX_MESSAGE_END else IHEX_MESSAGE_CHECK_SUM_ERROR))"
proof -
  define ds where "ds = tl (encode_record len hi lo typ payload)"
  have line: "line = 0x3A # ds"
    unfolding line_def ds_def by (rule encode_record_text(2))
  have tx: "hex_text ds
      ([len, hi, lo, typ] @ payload @ [- (len + hi + lo + typ + sum_list payload)])"
    unfolding ds_def by (rule encode_record_text(1))
  have a: "fst (feed r line) = replicate (length line) IHEX_MESSAGE_CONTINUE"
    unfolding line
    by (rule valid_record_all_continue [OF assms(1) tx assms(3,4) refl assms(2)])
  have b: "fst (feed r (line[i := c])) ! i = IHEX_MESSAGE_INVALID_INPUT_DATA"
    if "i < length line" "\<not> is_hex_digit c" "c \<noteq> 0x0A" "c \<noteq> 0x0D" "c \<noteq> line ! i" for i c
    using that unfolding line
    by (intro corrupted_by_non_digit [OF assms(1) tx assms(3)])
  have c: "last (fst (feed r (line[i := c]))) =
                 (if hex_pair (line[i := c] ! 7) (line[i := c] ! 8) = 1
                  then IHEX_MESSAGE_END else IHEX_MESSAGE_CHECK_SUM_ERROR)"
    if "3 \<le> i" "i < length line" "is_hex_digit c" "digit_value c \<noteq> digit_value (line ! i)"
    for i c
    using that unfolding line
    by (intro corrupted_by_digit [OF assms(1) tx assms(3) refl])
  from a b c show ?thesis by blast
qed

theorem encoded_record_round_trip_witness:
  "encode_record 3 0 0x30 0 [0x02, 0x33, 0x7A] = bytes_of '':0300300002337A1E''
   \<and> fst (feed begun_reader (bytes_of '':0300300002337A1E''))
       = replicate 17 IHEX_MESSAGE_CONTINUE
   \<and> fst (feed begun_reader (bytes_of '':0300G00002337A1E'')) ! 5
       = IHEX_MESSAGE_INVALID_INPUT_DATA
   \<and> fst (feed begun_reader (bytes_of '':0300:00002337A1E'')) ! 5
       = IHEX_MESSAGE_INVALID_INPUT_DATA
   \<and> last (fst (feed begun_reader (bytes_of '':0300300003337A1E'')))
       = IHEX_MESSAGE_CHECK_SUM_ERROR
   \<and> last (fst (feed begun_reader (bytes_of '':0300300102337A1E''))) = IHEX_MESSAGE_END"
proof -
  have e: "encode_record 3 0 0x30 0 [0x02, 0x33, 0x7A] = bytes_of '':0300300002337A1E''"
    by (simp add: encode_record_def hex_byte_def hex_char_def record_checksum_def bytes_of_def)
  have u: "(bytes_of '':0300300002337A1E'')[5 := 0x47] = bytes_of '':0300G00002337A1E''"
    "(bytes_of '':0300300002337A1E'')[5 := 0x3A] = bytes_of '':0300:00002337A1E''"
    "(bytes_of '':0300300002337A1E'')[10 := 0x33] = bytes_of '':0300300003337A1E''"
    "(bytes_of '':0300300002337A1E'')[8 := 0x31] = bytes_of '':0300300102337A1E''"
    by (simp_all add: bytes_of_def)
  have h: "funcData begun_reader = None \<or> funcData begun_reader = Some always_continue"
    "length [0x02, 0x33, 0x7A :: 8 word] = unat (3 :: 8 word)" "(0 :: 8 word) \<noteq> 1"
    by (simp_all add: begun_reader_simps)
  note t = encoded_record_round_trip [OF begun_reader_simps(1) h, of 0 "0x30", unfolded e]
  have n: "length (bytes_of '':0300300002337A1E'') = 17"
    by (simp add: bytes_of_def)
  have "fst (feed begun_reader (bytes_of '':0300300002337A1E''))
       = replicate 17 IHEX_MESSAGE_CONTINUE"
    using t [THEN conjunct1] unfolding n .
  moreover have "fst (feed begun_reader ((bytes_of '':0300300002337A1E'')[5 := 0x47])) ! 5
       = IHEX_MESSAGE_INVALID_INPUT_DATA"
    by (rule t [THEN conjunct2, THEN conjunct1, rule_format])
      (simp add: bytes_of_def is_hex_digit_def)
  moreover have "fst (feed begun_reader ((bytes_of '':0300300002337A1E'')[5 := 0x3A])) ! 5
       = IHEX_MESSAGE_INVALID_INPUT_DATA"
    by (rule t [THEN conjunct2, THEN conjunct1, rule_format])
      (simp add: bytes_of_def is_hex_digit_def)
  moreover have "last (fst (feed begun_reader ((bytes_of '':0300300002337A1E'')[10 := 0x33])))
       = (if hex_pair ((bytes_of '':0300300002337A1E'')[10 := 0x33] ! 7)
               ((bytes_of '':0300300002337A1E'')[10 := 0x33] ! 8) = 1
          then IHEX_MESSAGE_END else IHEX_MESSAGE_CHECK_SUM_ERROR)"
    by (rule t [THEN conjunct2, THEN conjunct2, rule_format])
      (simp add: bytes_of_def is_hex_digit_def digit_value_def)
  moreover have "last (fst (feed begun_reader ((bytes_of '':0300300002337A1E'')[8 := 0x31])))
       = (if hex_pair ((bytes_of '':0300300002337A1E'')[8 := 0x31] ! 7)
               ((bytes_of '':0300300002337A1E'')[8 := 0x31] ! 8) = 1
          then IHEX_MESSAGE_END else IHEX_MESSAGE_CHECK_SUM_ERROR)"
    by (rule t [THEN conjunct2, THEN conjunct2, rule_format])
      (simp add: bytes_of_def is_hex_digit_def digit_value_def)
  moreover have "hex_pair ((bytes_of '':0300300002337A1E'')[10 := 0x33] ! 7)
               ((bytes_of '':0300300002337A1E'')[10 := 0x33] ! 8) = 0"
    "hex_pair ((bytes_of '':0300300002337A1E'')[8 := 0x31] ! 7)
               ((bytes_of '':0300300002337A1E'')[8 := 0x31] ! 8) = 1"
    by (simp_all add: bytes_of_def hex_pair_def digit_value_def)
  ultimately show ?thesis
    unfolding u using e by simp
qed

text \<open>
  C4 as stated fails: the lower-case \<open>e\<close> for the last digit of \<open>:00000002FE\<close>, the
  length digit \<open>1\<close> in \<open>:0000000000\<close>, a \<open>0\<close> for its record mark and a line feed for
  its last digit each give a line on which every call returns Continue.
\<close>

theorem single_character_change_counterexample:
  "encode_record 0 0 0 2 [] = bytes_of '':00000002FE''
   \<and> fst (feed begun_reader ((encode_record 0 0 0 2 [])[10 := 0x65]))
       = replicate 11 IHEX_MESSAGE_CONTINUE
   \<and> encode_record 0 0 0 0 [] = bytes_of '':0000000000''
   \<and> fst (feed begun_reader ((encode_record 0 0 0 0 [])[2 := 0x31]))
       = replicate 11 IHEX_MESSAGE_CONTINUE
   \<and> fst (feed begun_reader ((encode_record 0 0 0 0 [])[0 := 0x30]))
       = replicate 11 IHEX_MESSAGE_CONTINUE
   \<and> fst (feed begun_reader ((encode_record 0 0 0 0 [])[10 := 0x0A]))
       = replicate 11 IHEX_MESSAGE_CONTINUE"
  by code_simp

text \<open>
  C5. For a record of type 01 the call on the last checksum digit returns End, whatever the
  checksum field and the running sum are.
\<close>

theorem end_of_file_record:
  assumes "state (lexer r) = IHEX_LEXER_STATE_WAIT_COLON"
    and "hex_text ds ([len, hi, lo, 1] @ payload @ [ck])"
    and "length payload = unat len"
  shows "last (fst (feed r (0x3A # ds))) = IHEX_MESSAGE_END"
  by (simp add: feed_record_facts(1) [OF assms] final_message_def del: feed.simps)

theorem end_of_file_record_witness:
  "last (fst (feed begun_reader (bytes_of '':00000001FF''))) = IHEX_MESSAGE_END
   \<and> last (fst (feed begun_reader (bytes_of '':0000000100''))) = IHEX_MESSAGE_END"
proof -
  have a: "hex_text (bytes_of ''00000001FF'') ([0, 0, 0, 1] @ [] @ [0xFF])"
    by (simp add: bytes_of_def is_hex_digit_def hex_pair_def digit_value_def)
  have b: "hex_text (bytes_of ''0000000100'') ([0, 0, 0, 1] @ [] @ [0x00])"
    by (simp add: bytes_of_def is_hex_digit_def hex_pair_def digit_value_def)
  from end_of_file_record [OF begun_reader_simps(1) a] end_of_file_record [OF begun_reader_simps(1) b]
  show ?thesis
    by (simp add: bytes_of_def del: feed.simps)
qed

text \<open>
  C6 (as amended). While the reader waits for the record mark, a byte other than \<open>':'\<close>
  never changes the reader; the call returns Continue when the byte is a hex digit, a line
  feed or a carriage return, and InvalidInput for every other byte: \<open>ihex_Put\<close> refuses
  those before the lexer is reached.
\<close>

theorem await_mark_other_bytes:
  assumes "state (lexer r) = IHEX_LEXER_STATE_WAIT_COLON" and "d \<noteq> 0x3A"
  shows "ihex_Put r d =
    (if is_hex_digit d \<or> d = 0x0A \<or> d = 0x0D then IHEX_MESSAGE_CONTINUE
     else IHEX_MESSAGE_INVALID_INPUT_DATA, r)"
  using assms
  by (auto simp: ihex_Put_def ihex_Lexer_def ihex_IsValidData_def is_hex_digit_def)

theorem await_mark_other_bytes_witness:
  "ihex_Put (ihex_Begin blank_reader) 0x20 = (IHEX_MESSAGE_INVALID_INPUT_DATA, ihex_Begin blank_reader)
   \<and> ihex_Put (ihex_Begin blank_reader) 0x41 = (IHEX_MESSAGE_CONTINUE, ihex_Begin blank_reader)"
  using await_mark_other_bytes [of "ihex_Begin blank_reader" "0x20"]
    await_mark_other_bytes [of "ihex_Begin blank_reader" "0x41"]
  by (simp add: Begin_state is_hex_digit_def)

text \<open>C6 as stated fails for a space (0x20) fed to a freshly begun reader: the call does
  not return Continue.\<close>

theorem await_mark_space_counterexample:
  "state (lexer (ihex_Begin blank_reader)) = IHEX_LEXER_STATE_WAIT_COLON
   \<and> (0x20 :: 8 word) \<noteq> 0x3A \<and> (0x20 :: 8 word) \<noteq> 0x0A \<and> (0x20 :: 8 word) \<noteq> 0x0D
   \<and> fst (ihex_Put (ihex_Begin blank_reader) 0x20) \<noteq> IHEX_MESSAGE_CONTINUE"
  by (simp add: ihex_Begin_def ihex_Put_def ihex_IsValidData_def)

text \<open>
  C7. After length 02, type 02 and the two payload bytes \<open>s1 s0\<close> the extension base is
  the 16-bit number \<open>s1 s0\<close> shifted left by 4 bits (times 16); once the record is closed
  by its checksum digits, a type-00 record that follows has its bytes delivered at that
  base + load offset + index.
\<close>

theorem segment_record_base:
  assumes "state (lexer r) = IHEX_LEXER_STATE_WAIT_COLON"
    and "funcData r = Some f"
    and "hex_text ds [2, hi, lo, 2, s1, s0]"
    and "hex_text cs [ck]"
    and "hex_text ds2 ([len2, hi2, lo2, 0] @ payload2 @ [ck2])"
    and "length payload2 = unat len2"
  shows "ext_offset (lexer (snd (feed r (0x3A # ds)))) =
           push_bit 4 (ucast (word_cat s1 s0 :: 16 word))
       \<and> calls (snd (feed r ((0x3A # ds @ cs) @ 0x3A # ds2))) =
           calls r @ map (\<lambda>i. (push_bit 4 (ucast (word_cat s1 s0 :: 16 word))
                                 + ucast (word_cat hi2 lo2 :: 16 word) + of_nat i,
                               payload2 ! i)) [0..<unat len2]"
proof -
  have p: "hex_text ds ([2, hi, lo, 2] @ [s1, s0])" using assms(3) by simp
  have q: "hex_text (ds @ cs) ([2, hi, lo, 2] @ [s1, s0] @ [ck])"
    using assms(3,4) by (auto elim!: hex_text_Cons simp: hex_text_Nil)
  have l: "length [s1, s0] = unat (2 :: 8 word)" by simp
  note first = feed_record_facts [OF assms(1) q l]
  have "ext_offset (lexer (snd (feed r (0x3A # ds)))) =
      push_bit 4 (ucast (word_cat s1 s0 :: 16 word))"
    unfolding feed_upto_payload [OF assms(1) p l]
    by (simp add: payload_run_segment header_state_simps del: payload_run.simps)
  moreover have "calls (snd (feed r ((0x3A # ds @ cs) @ 0x3A # ds2))) =
           calls r @ map (\<lambda>i. (push_bit 4 (ucast (word_cat s1 s0 :: 16 word))
                                 + ucast (word_cat hi2 lo2 :: 16 word) + of_nat i,
                               payload2 ! i)) [0..<unat len2]"
    unfolding feed_two_lines(1)
    by (simp add: feed_record_calls [OF first(2) assms(5,6)] first(3) first(5) first(6)
        assms(2) del: feed.simps)
  ultimately show ?thesis by simp
qed

theorem segment_record_base_witness:
  "ext_offset (lexer (snd (feed begun_reader (bytes_of '':020000020010'')))) = 0x00000100
   \<and> calls (snd (feed begun_reader (bytes_of '':020000020010EC:01000500AA50'')))
       = [(0x00000105, 0xAA)]"
proof -
  have a: "hex_text (bytes_of ''020000020010'') [2, 0, 0, 2, 0x00, 0x10]"
    by (simp add: bytes_of_def is_hex_digit_def hex_pair_def digit_value_def)
  have b: "hex_text (bytes_of ''EC'') [0xEC]"
    by (simp add: bytes_of_def is_hex_digit_def hex_pair_def digit_value_def)
  have c: "hex_text (bytes_of ''01000500AA50'') ([1, 0x00, 0x05, 0] @ [0xAA] @ [0x50])"
    by (simp add: bytes_of_def is_hex_digit_def hex_pair_def digit_value_def)
  from segment_record_base [OF begun_reader_simps(1,2) a b c]
  show ?thesis
    by (simp add: bytes_of_def begun_reader_simps word_cat_eq del: feed.simps)
qed

text \<open>
  C8. After length 02, type 04 and the two payload bytes \<open>u1 u0\<close> the extension base is
  the 16-bit number \<open>u1 u0\<close> shifted left by 16 bits; once the record is closed by its
  checksum digits, a type-00 record that follows has its bytes delivered at that base +
  load offset + index.
\<close>

theorem linear_record_base:
  assumes "state (lexer r) = IHEX_LEXER_STATE_WAIT_COLON"
    and "funcData r = Some f"
    and "hex_text ds [2, hi, lo, 4, u1, u0]"
    and "hex_text cs [ck]"
    and "hex_text ds2 ([len2, hi2, lo2, 0] @ payload2 @ [ck2])"
    and "length payload2 = unat len2"
  shows "ext_offset (lexer (snd (feed r (0x3A # ds)))) =
           push_bit 16 (ucast (word_cat u1 u0 :: 16 word))
       \<and> calls (snd (feed r ((0x3A # ds @ cs) @ 0x3A # ds2))) =
           calls r @ map (\<lambda>i. (push_bit 16 (ucast (word_cat u1 u0 :: 16 word))
                                 + ucast (word_cat hi2 lo2 :: 16 word) + of_nat i,
                               payload2 ! i)) [0..<unat len2]"
proof -
  have p: "hex_text ds ([2, hi, lo, 4] @ [u1, u0])" using assms(3) by simp
  have q: "hex_text (ds @ cs) ([2, hi, lo, 4] @ [u1, u0] @ [ck])"
    using assms(3,4) by (auto elim!: hex_text_Cons simp: hex_text_Nil)
  have l: "length [u1, u0] = unat (2 :: 8 word)" by simp
  note first = feed_record_facts [OF assms(1) q l]
  have "ext_offset (lexer (snd (feed r (0x3A # ds)))) =
      push_bit 16 (ucast (word_cat u1 u0 :: 16 word))"
    unfolding feed_upto_payload [OF assms(1) p l]
    by (simp add: payload_run_linear header_state_simps del: payload_run.simps)
  moreover have "calls (snd (feed r ((0x3A # ds @ cs) @ 0x3A # ds2))) =
           calls r @ map (\<lambda>i. (push_bit 16 (ucast (word_cat u1 u0 :: 16 word))
                                 + ucast (word_cat hi2 lo2 :: 16 word) + of_nat i,
                               payload2 ! i)) [0..<unat len2]"
    unfolding feed_two_lines(1)
    by (simp add: feed_record_calls [OF first(2) assms(5,6)] first(3) first(5) first(7)
        assms(2) del: feed.simps)
  ultimately show ?thesis by simp
qed

theorem linear_record_base_witness:
  "ext_offset (lexer (snd (feed begun_reader (bytes_of '':02000004FFFF'')))) = 0xFFFF0000
   \<and> calls (snd (feed begun_reader (bytes_of '':02000004FFFFFC:01001000AA45'')))
       = [(0xFFFF0010, 0xAA)]"
proof -
  have a: "hex_text (bytes_of ''02000004FFFF'') [2, 0, 0, 4, 0xFF, 0xFF]"
    by (simp add: bytes_of_def is_hex_digit_def hex_pair_def digit_value_def)
  have b: "hex_text (bytes_of ''FC'') [0xFC]"
    by (simp add: bytes_of_def is_hex_digit_def hex_pair_def digit_value_def)
  have c: "hex_text (bytes_of ''01001000AA45'') ([1, 0x00, 0x10, 0] @ [0xAA] @ [0x45])"
    by (simp add: bytes_of_def is_hex_digit_def hex_pair_def digit_value_def)
  from linear_record_base [OF begun_reader_simps(1,2) a b c]
  show ?thesis
    by (simp add: bytes_of_def begun_reader_simps word_cat_eq del: feed.simps)
qed

text \<open>
  C9. A type-02 or type-04 record whose checksum does not match is answered with
  ChecksumError on its last digit, and the extension base built from its payload stays:
  the type-00 records fed after it, however many and whether their own checksums match or
  not, are delivered at addresses on that base. For a type-00 record the call on the last
  digit reports a checksum that does not match with ChecksumError, and in either case the
  calls made for its payload bytes are in the log.
\<close>

theorem checksum_error_no_rollback:
  assumes "state (lexer r) = IHEX_LEXER_STATE_WAIT_COLON"
    and "funcData r = Some f"
    and "hex_text ds [2, hi, lo, typ, p1, p0, ck]"
    and "typ = 2 \<or> typ = 4"
    and "ck \<noteq> - (2 + hi + lo + typ + p1 + p0)"
    and "list_all data_record_ok rs"
    and "hex_text ds2 ([len2, hi2, lo2, 0] @ payload2 @ [ck2])"
    and "length payload2 = unat len2"
  shows "last (fst (feed r (0x3A # ds))) = IHEX_MESSAGE_CHECK_SUM_ERROR
       \<and> ext_offset (lexer (snd (feed r (0x3A # ds)))) =
           push_bit (if typ = 2 then 4 else 16) (ucast (word_cat p1 p0 :: 16 word))
       \<and> calls (snd (feed r ((0x3A # ds) @ record_lines rs))) =
           calls r @ record_calls
             (push_bit (if typ = 2 then 4 else 16) (ucast (word_cat p1 p0 :: 16 word))) rs
       \<and> last (fst (feed r (0x3A # ds2))) =
           (if ck2 = - (len2 + hi2 + lo2 + sum_list payload2)
            then IHEX_MESSAGE_CONTINUE else IHEX_MESSAGE_CHECK_SUM_ERROR)
       \<and> calls (snd (feed r (0x3A # ds2))) =
           calls r @ map (\<lambda>i. (ext_offset (lexer r) + ucast (word_cat hi2 lo2 :: 16 word)
                                 + of_nat i,
                               payload2 ! i)) [0..<unat len2]"
proof -
  have q: "hex_text ds ([2, hi, lo, typ] @ [p1, p0] @ [ck])" using assms(3) by simp
  have l: "length [p1, p0] = unat (2 :: 8 word)" by simp
  note first = feed_record_facts [OF assms(1) q l]
  have t: "typ \<noteq> 0" "typ \<noteq> 1" using assms(4) by auto
  have e1: "last (fst (feed r (0x3A # ds))) = IHEX_MESSAGE_CHECK_SUM_ERROR"
    using assms(5) t by (simp add: first(1) final_message_def add.assoc del: feed.simps)
  have base: "ext_offset (lexer (snd (feed r (0x3A # ds)))) =
      push_bit (if typ = 2 then 4 else 16) (ucast (word_cat p1 p0 :: 16 word))"
    using assms(4) first(6) [of p1 p0] first(7) [of p1 p0] by auto
  have f1: "funcData (snd (feed r (0x3A # ds))) = Some f"
    using first(3) assms(2) by (simp del: feed.simps)
  have c2: "calls (snd (feed r ((0x3A # ds) @ record_lines rs))) =
           calls r @ record_calls
             (push_bit (if typ = 2 then 4 else 16) (ucast (word_cat p1 p0 :: 16 word))) rs"
    unfolding feed_two_lines(1)
    using feed_data_records [OF first(2) f1 assms(6)]
    by (simp add: base first(5) [OF t(1)] del: feed.simps)
  have e3: "last (fst (feed r (0x3A # ds2))) =
           (if ck2 = - (len2 + hi2 + lo2 + sum_list payload2)
            then IHEX_MESSAGE_CONTINUE else IHEX_MESSAGE_CHECK_SUM_ERROR)"
    unfolding feed_record_facts(1) [OF assms(1,7,8)]
    by (auto simp: final_message_def)
  have c3: "calls (snd (feed r (0x3A # ds2))) =
           calls r @ map (\<lambda>i. (ext_offset (lexer r) + ucast (word_cat hi2 lo2 :: 16 word)
                                 + of_nat i,
                               payload2 ! i)) [0..<unat len2]"
    by (simp add: feed_record_calls [OF assms(1,7,8)] assms(2) del: feed.simps)
  from e1 base c2 e3 c3 show ?thesis by (simp del: feed.simps)
qed

theorem checksum_error_no_rollback_witness:
  "last (fst (feed begun_reader (bytes_of '':02000002001000''))) = IHEX_MESSAGE_CHECK_SUM_ERROR
   \<and> ext_offset (lexer (snd (feed begun_reader (bytes_of '':02000002001000'')))) = 0x100
   \<and> calls (snd (feed begun_reader (bytes_of '':02000002001000:01000500AA50:020010000102EB'')))
       = [(0x105, 0xAA), (0x110, 0x01), (0x111, 0x02)]
   \<and> last (fst (feed begun_reader (bytes_of '':02000004FFFF00''))) = IHEX_MESSAGE_CHECK_SUM_ERROR
   \<and> ext_offset (lexer (snd (feed begun_reader (bytes_of '':02000004FFFF00'')))) = 0xFFFF0000
   \<and> calls (snd (feed begun_reader (bytes_of '':02000004FFFF00:01001000AA45'')))
       = [(0xFFFF0010, 0xAA)]
   \<and> last (fst (feed begun_reader (bytes_of '':01000500AA00''))) = IHEX_MESSAGE_CHECK_SUM_ERROR
   \<and> calls (snd (feed begun_reader (bytes_of '':01000500AA00''))) = [(0x005, 0xAA)]"
proof -
  have a: "hex_text (bytes_of ''02000002001000'') [2, 0, 0, 2, 0x00, 0x10, 0x00]"
    by (simp add: bytes_of_def is_hex_digit_def hex_pair_def digit_value_def)
  have b: "hex_text (bytes_of ''02000004FFFF00'') [2, 0, 0, 4, 0xFF, 0xFF, 0x00]"
    by (simp add: bytes_of_def is_hex_digit_def hex_pair_def digit_value_def)
  have c: "hex_text (bytes_of ''01000500AA00'') ([1, 0x00, 0x05, 0] @ [0xAA] @ [0x00])"
    by (simp add: bytes_of_def is_hex_digit_def hex_pair_def digit_value_def)
  have r2: "list_all data_record_ok
      [(bytes_of ''01000500AA50'', 1, 0x00, 0x05, [0xAA], 0x50),
       (bytes_of ''020010000102EB'', 2, 0x00, 0x10, [0x01, 0x02], 0xEB)]"
    by (simp add: bytes_of_def is_hex_digit_def hex_pair_def digit_value_def)
  have r4: "list_all data_record_ok [(bytes_of ''01001000AA45'', 1, 0x00, 0x10, [0xAA], 0x45)]"
    by (simp add: bytes_of_def is_hex_digit_def hex_pair_def digit_value_def)
  from checksum_error_no_rollback [OF begun_reader_simps(1,2) a _ _ r2 c]
    checksum_error_no_rollback [OF begun_reader_simps(1,2) b _ _ r4 c]
  show ?thesis
    by (simp add: bytes_of_def begun_reader_simps word_cat_eq upt_conv_Cons del: feed.simps)
qed

text \<open>
  C10. For every sequence of bytes, a reader whose callback pointer is NULL returns the same
  status on every call as the same reader with a callback that always returns Continue, ends
  with the same lexer state, and its log of callback invocations is unchanged.
\<close>

theorem null_callback_like_continue:
  "fst (feed (r\<lparr>funcData := None\<rparr>) bs) = fst (feed (r\<lparr>funcData := Some always_continue\<rparr>) bs)
   \<and> lexer (snd (feed (r\<lparr>funcData := None\<rparr>) bs))
       = lexer (snd (feed (r\<lparr>funcData := Some always_continue\<rparr>) bs))
   \<and> calls (snd (feed (r\<lparr>funcData := None\<rparr>) bs)) = calls r"
proof -
  have e: "r\<lparr>funcData := None\<rparr> = \<lparr>lexer = lexer r, funcData = None, calls = calls r\<rparr>"
    "r\<lparr>funcData := Some always_continue\<rparr>
      = \<lparr>lexer = lexer r, funcData = Some always_continue, calls = calls r\<rparr>"
    by simp_all
  show ?thesis
    unfolding e by (rule feed_null_callback)
qed

theorem null_callback_like_continue_witness:
  "fst (feed (begun_reader\<lparr>funcData := None\<rparr>) (bytes_of '':0300300002337A1E''))
     = fst (feed begun_reader (bytes_of '':0300300002337A1E''))
   \<and> lexer (snd (feed (begun_reader\<lparr>funcData := None\<rparr>) (bytes_of '':0300300002337A1E'')))
     = lexer (snd (feed begun_reader (bytes_of '':0300300002337A1E'')))
   \<and> calls (snd (feed (begun_reader\<lparr>funcData := None\<rparr>) (bytes_of '':0300300002337A1E''))) = []"
proof -
  have "begun_reader\<lparr>funcData := Some always_continue\<rparr> = begun_reader"
    by (simp add: begun_reader_def ihex_Begin_def ihex_Init_def)
  with null_callback_like_continue [of begun_reader "bytes_of '':0300300002337A1E''"]
  show ?thesis by (simp add: begun_reader_simps del: feed.simps)
qed

end
